theory Spec2Isabelle
  imports Main "HOL-Library.AList"
begin

section \<open>JavaScript strings and regular expressions\<close>

text \<open>
  The stylesheet plugin (\<^verbatim>\<open>packages/vite/src/node/plugins/css.ts\<close>) is driven by
  regular expressions over module ids and stylesheet text. Strings are modelled as
  \<^typ>\<open>string\<close> (a list of 8-bit characters); the character classes below read a
  character through its code. The regular expression literals of the source use only
  literals, single character classes, greedy repetition of one class, alternation, one
  capturing group that is read (group 1), and the zero-width assertions \<^verbatim>\<open>^\<close>,
  \<^verbatim>\<open>$\<close>, \<^verbatim>\<open>\b\<close> and a one-character look-behind. An expression that is built
  at run time from a pattern text can also repeat a whole expression (\<open>Rep\<close>, greedy).
\<close>

datatype re =
    Lit string
  | Cls "char \<Rightarrow> bool"
  | Star "char \<Rightarrow> bool"
  | Seq re re
  | Alt re re
  | Grp re
  | Bol
  | Eol
  | WordB
  | Behind "char \<Rightarrow> bool"
  | Rep re

text \<open>
  A matcher state is the text already passed (reversed, nearest character first), the
  text still ahead, and the text captured by group 1 (\<open>None\<close> while the group has not
  taken part). Matching is by backtracking with a continuation, as the ECMAScript
  semantics has it: alternatives left to right, repetition longest first.
\<close>

type_synonym mstate = "string \<times> string \<times> string option"

definition is_w :: "char \<Rightarrow> bool" where
  "is_w c = (let n = (of_char c :: nat) in
     (48 \<le> n \<and> n \<le> 57) \<or> (65 \<le> n \<and> n \<le> 90) \<or> n = 95 \<or> (97 \<le> n \<and> n \<le> 122))"

definition is_s :: "char \<Rightarrow> bool" where
  "is_s c = (let n = (of_char c :: nat) in (9 \<le> n \<and> n \<le> 13) \<or> n = 32 \<or> n = 160)"

fun star :: "(char \<Rightarrow> bool) \<Rightarrow> (mstate \<Rightarrow> 'a option) \<Rightarrow> string \<Rightarrow> string option \<Rightarrow> string \<Rightarrow> 'a option" where
  "star p k d g [] = k (d, [], g)"
| "star p k d g (c # cs) =
     (if p c then (case star p k (c # d) g cs of Some r \<Rightarrow> Some r | None \<Rightarrow> k (d, c # cs, g))
      else k (d, c # cs, g))"

text \<open>
  Greedy repetition of a matcher \<open>m\<close>: one more round and then the rest, or else the
  continuation at once. A round that passes no character is rejected, as ECMAScript
  rejects an empty iteration, so there are at most as many rounds as characters ahead;
  \<open>n\<close> counts the rounds that are left.
\<close>

primrec rep ::
  "((mstate \<Rightarrow> 'a option) \<Rightarrow> mstate \<Rightarrow> 'a option) \<Rightarrow> nat \<Rightarrow> (mstate \<Rightarrow> 'a option)
     \<Rightarrow> mstate \<Rightarrow> 'a option" where
  "rep m 0 k st = k st"
| "rep m (Suc n) k st =
     (case m (\<lambda>st'. if length (fst (snd st')) < length (fst (snd st)) then rep m n k st' else None) st of
        Some r \<Rightarrow> Some r
      | None \<Rightarrow> k st)"

primrec rmatch :: "re \<Rightarrow> (mstate \<Rightarrow> 'a option) \<Rightarrow> mstate \<Rightarrow> 'a option" where
  "rmatch (Lit l) = (\<lambda>k (d, s, g).
     if take (length l) s = l then k (rev l @ d, drop (length l) s, g) else None)"
| "rmatch (Cls p) = (\<lambda>k (d, s, g).
     case s of [] \<Rightarrow> None | c # cs \<Rightarrow> if p c then k (c # d, cs, g) else None)"
| "rmatch (Star p) = (\<lambda>k (d, s, g). star p k d g s)"
| "rmatch (Seq a b) = (\<lambda>k. rmatch a (rmatch b k))"
| "rmatch (Alt a b) = (\<lambda>k st.
     case rmatch a k st of Some r \<Rightarrow> Some r | None \<Rightarrow> rmatch b k st)"
| "rmatch (Grp a) = (\<lambda>k (d, s, g).
     rmatch a (\<lambda>(d', s', g'). k (d', s', Some (rev (take (length d' - length d) d')))) (d, s, g))"
| "rmatch Bol = (\<lambda>k (d, s, g). if d = [] then k (d, s, g) else None)"
| "rmatch Eol = (\<lambda>k (d, s, g). if s = [] then k (d, s, g) else None)"
| "rmatch WordB = (\<lambda>k (d, s, g).
     if (d \<noteq> [] \<and> is_w (hd d)) \<noteq> (s \<noteq> [] \<and> is_w (hd s)) then k (d, s, g) else None)"
| "rmatch (Behind p) = (\<lambda>k (d, s, g). if d \<noteq> [] \<and> p (hd d) then k (d, s, g) else None)"
| "rmatch (Rep a) = (\<lambda>k st. rep (rmatch a) (length (fst (snd st))) k st)"

text \<open>A match starting exactly here: its length and group 1.\<close>

definition match_here :: "re \<Rightarrow> string \<Rightarrow> string \<Rightarrow> (nat \<times> string option) option" where
  "match_here r d s = rmatch r (\<lambda>(d', s', g). Some (length d' - length d, g)) (d, s, None)"

text \<open>
  \<^verbatim>\<open>RegExp.prototype.exec\<close> without the sticky flag: the leftmost start that
  matches. The result is the index of the match, its length and group 1.
\<close>

fun re_search :: "re \<Rightarrow> string \<Rightarrow> string \<Rightarrow> (nat \<times> nat \<times> string option) option" where
  "re_search r d [] = (case match_here r d [] of Some x \<Rightarrow> Some (0, x) | None \<Rightarrow> None)"
| "re_search r d (c # cs) =
     (case match_here r d (c # cs) of
        Some x \<Rightarrow> Some (0, x)
      | None \<Rightarrow> map_option (\<lambda>(i, x). (Suc i, x)) (re_search r (c # d) cs))"

definition re_exec :: "re \<Rightarrow> string \<Rightarrow> (nat \<times> nat \<times> string option) option" where
  "re_exec r s = re_search r [] s"

definition re_test :: "re \<Rightarrow> string \<Rightarrow> bool" where
  "re_test r s = (re_exec r s \<noteq> None)"

definition seqs :: "re list \<Rightarrow> re" where
  "seqs rs = foldr Seq rs (Lit [])"

fun alts :: "re list \<Rightarrow> re" where
  "alts [] = Lit []"
| "alts [r] = r"
| "alts (r # rs) = Alt r (alts rs)"

text \<open>\<^verbatim>\<open>String.prototype.includes\<close> and \<^verbatim>\<open>startsWith\<close>.\<close>

definition starts_with :: "string \<Rightarrow> string \<Rightarrow> bool" where
  "starts_with s p = (take (length p) s = p)"

fun str_includes :: "string \<Rightarrow> string \<Rightarrow> bool" where
  "str_includes [] p = (p = [])"
| "str_includes (c # cs) p = (starts_with (c # cs) p \<or> str_includes cs p)"

subsection \<open>The regular expressions of the plugin\<close>

text \<open>
  \<^verbatim>\<open>const cssLangs = `\\.(css|less|sass|scss|styl|stylus|pcss|postcss)($|\\?)`\<close>
\<close>

definition cssLangs :: re where
  "cssLangs = seqs [Lit ''.'',
     Grp (alts [Lit ''css'', Lit ''less'', Lit ''sass'', Lit ''scss'', Lit ''styl'',
                Lit ''stylus'', Lit ''pcss'', Lit ''postcss'']),
     Alt Eol (Lit ''?'')]"

definition cssLangRE :: re where
  "cssLangRE = cssLangs"

definition cssModuleRE :: re where
  "cssModuleRE = Seq (Lit ''.module'') cssLangs"

definition directRequestRE :: re where
  "directRequestRE = seqs [Alt (Lit ''?'') (Lit ''&''), Lit ''direct'', WordB]"

definition htmlProxyRE :: re where
  "htmlProxyRE = seqs [Alt (Lit ''?'') (Lit ''&''), Lit ''html-proxy'', WordB]"

definition commonjsProxyRE :: re where
  "commonjsProxyRE = Lit ''?commonjs-proxy''"

definition inlineRE :: re where
  "inlineRE = seqs [Alt (Lit ''?'') (Lit ''&''), Lit ''inline'', WordB]"

definition inlineCSSRE :: re where
  "inlineCSSRE = seqs [Alt (Lit ''?'') (Lit ''&''), Lit ''inline-css'', WordB]"

definition usedRE :: re where
  "usedRE = seqs [Alt (Lit ''?'') (Lit ''&''), Lit ''used'', WordB]"

text \<open>
  \<^verbatim>\<open>cssUrlRE = /(?<=^|[^\w\-\u0080-\uffff])url\(\s*('[^']+'|"[^"]+"|[^'")]+)\s*\)/\<close>
  and \<^verbatim>\<open>cssImageSetRE = /image-set\(([^)]+)\)/\<close>. A repetition \<^verbatim>\<open>c+\<close> is
  \<^verbatim>\<open>c\<close> followed by \<^verbatim>\<open>c*\<close>.
\<close>

definition plus :: "(char \<Rightarrow> bool) \<Rightarrow> re" where
  "plus p = Seq (Cls p) (Star p)"

definition is_ident :: "char \<Rightarrow> bool" where
  "is_ident c = (is_w c \<or> c = CHR ''-'' \<or> 128 \<le> (of_char c :: nat))"

definition cssUrlRE :: re where
  "cssUrlRE = seqs [Alt Bol (Behind (\<lambda>c. \<not> is_ident c)),
     Lit ''url('', Star is_s,
     Grp (alts [seqs [Lit [CHR 0x27], plus (\<lambda>c. c \<noteq> CHR 0x27), Lit [CHR 0x27]],
                seqs [Lit [CHR 0x22], plus (\<lambda>c. c \<noteq> CHR 0x22), Lit [CHR 0x22]],
                plus (\<lambda>c. c \<noteq> CHR 0x27 \<and> c \<noteq> CHR 0x22 \<and> c \<noteq> CHR '')'')]),
     Star is_s, Lit '')'']"

definition cssImageSetRE :: re where
  "cssImageSetRE = seqs [Lit ''image-set('', Grp (plus (\<lambda>c. c \<noteq> CHR '')'')), Lit '')'']"

definition isCSSRequest :: "string \<Rightarrow> bool" where
  "isCSSRequest request = re_test cssLangRE request"

definition isDirectCSSRequest :: "string \<Rightarrow> bool" where
  "isDirectCSSRequest request = (re_test cssLangRE request \<and> re_test directRequestRE request)"


section \<open>The stylesheet compiler\<close>

subsection \<open>Data\<close>

text \<open>
  A JavaScript error object, as far as the plugin reads it: \<^verbatim>\<open>e.message\<close>,
  \<^verbatim>\<open>e.code\<close> (absent on most errors) and \<^verbatim>\<open>e.stack\<close>.
\<close>

record js_error =
  err_message :: string
  err_code :: "string option"
  err_stack :: string

text \<open>\<^verbatim>\<open>ExistingRawSourceMap\<close>, and the three things a \<^verbatim>\<open>map\<close> field can hold.\<close>

record rawmap =
  map_file :: "string option"
  mappings :: string
  names :: "string list"
  sources :: "string list"
  version :: nat

datatype smap = MapUndefined | MapNull | MapOf rawmap

type_synonym modmap = "(string \<times> string) list"

text \<open>
  Option bags (\<^verbatim>\<open>Record<string, any>\<close>) hold strings, string lists or the alias table.
  A bag is the list of its properties in insertion order; \<^const>\<open>AList.update\<close> assigns a
  property as JavaScript does (in place when the key exists, at the end otherwise), and
  spreading \<^verbatim>\<open>{...a, ...b}\<close> assigns the properties of \<open>b\<close> onto \<open>a\<close>.
\<close>

datatype jsval = JStr string | JList "string list" | JAlias

type_synonym bag = "(string \<times> jsval) list"

definition spread :: "bag \<Rightarrow> bag \<Rightarrow> bag" where
  "spread a b = fold (\<lambda>(k, v) acc. AList.update k v acc) b a"

text \<open>\<^verbatim>\<open>StylePreprocessorResults\<close>: what a preprocessor adapter returns.\<close>

record preprocess_results =
  pr_code :: string
  pr_map :: "rawmap option"
  pr_additionalMap :: "rawmap option"
  pr_errors :: "js_error list"
  pr_deps :: "string list"

text \<open>
  The postcss plugin chain: the user's plugins (known by number), \<^verbatim>\<open>postcss-import\<close>
  (carrying \<^verbatim>\<open>isHTMLProxy\<close>), \<^verbatim>\<open>postcss-modules\<close> and the plugin's own
  \<^verbatim>\<open>UrlRewritePostcssPlugin\<close>.
\<close>

datatype plugin = UserPlugin nat | ImportPlugin bool | ModulesPlugin | UrlRewritePlugin

datatype message =
    Dependency string
  | DirDependency string "string option"
  | Warning string "nat option" "nat option"
  | OtherMessage

text \<open>
  A postcss run: the css, the map, the messages, and the JSON that
  \<^verbatim>\<open>postcss-modules\<close> hands to \<^verbatim>\<open>getJSON\<close> when it is in the chain.
\<close>

record postcss_result =
  pc_css :: string
  pc_map :: rawmap
  pc_messages :: "message list"
  pc_json :: "modmap option"

record postcss_config =
  pcfg_options :: bag
  pcfg_plugins :: "nat list option"

datatype postcss_option = PostcssInline bag "nat list option" | PostcssPath string | PostcssUnset

datatype command = Build | Serve

text \<open>The fields of \<^verbatim>\<open>ResolvedConfig\<close> that the plugin reads.\<close>

record config =
  css_modules_off :: bool
  css_preprocessorOptions :: "string \<Rightarrow> bag option"
  css_postcss :: postcss_option
  cfg_root :: string
  cfg_base :: string
  cfg_command :: command
  build_watch :: bool
  build_minify :: bool
  build_cssTarget :: "string option"
  build_cssCodeSplit :: bool
  build_ssr :: bool
  build_sourcemap :: bool

datatype adapter = Less | Sass | Scss | Styl

text \<open>
  The collaborators that are not part of this file: \<^verbatim>\<open>../utils\<close>
  (\<^verbatim>\<open>isExternalUrl\<close>, \<^verbatim>\<open>isDataUrl\<close>, \<^verbatim>\<open>normalizePath\<close>, \<^verbatim>\<open>cleanUrl\<close>,
  \<^verbatim>\<open>combineSourcemaps\<close>, \<^verbatim>\<open>generateCodeFrame\<close>, \<^verbatim>\<open>asyncReplace\<close>,
  \<^verbatim>\<open>processSrcSet\<close>), node's \<^verbatim>\<open>path\<close>, \<^verbatim>\<open>decodeURIComponent\<close>,
  \<^verbatim>\<open>postcss-load-config\<close>, the dialect engines behind the adapters, postcss itself,
  \<^verbatim>\<open>fast-glob\<close>, and the dev server's module graph (\<^verbatim>\<open>getModuleById\<close>; the url
  under which \<^verbatim>\<open>ensureEntryFromUrl\<close> registers a file, \<open>entry_url\<close>). They are
  parameters of the model; every theorem holds for all of them. A callback that is
  \<^verbatim>\<open>async\<close> in the source returns the error it rejects with, or its value.
  \<^verbatim>\<open>asyncReplace(input, re, replacer)\<close> takes the text, the expression and the
  callback; the callback is given a match as the pair of the matched text
  (\<^verbatim>\<open>match[0]\<close>) and the text of group 1 (\<^verbatim>\<open>match[1]\<close>).
\<close>

record host =
  isExternalUrl :: "string \<Rightarrow> bool"
  isDataUrl :: "string \<Rightarrow> bool"
  normalizePath :: "string \<Rightarrow> string"
  cleanUrl :: "string \<Rightarrow> string"
  combineSourcemaps :: "string \<Rightarrow> rawmap list \<Rightarrow> rawmap"
  generateCodeFrame :: "string \<Rightarrow> nat \<Rightarrow> nat \<Rightarrow> string"
  path_dirname :: "string \<Rightarrow> string"
  path_resolve :: "string \<Rightarrow> string \<Rightarrow> string"
  decodeURIComponent :: "string \<Rightarrow> string"
  postcssrc :: "string \<Rightarrow> js_error + postcss_config"
  run_adapter :: "adapter \<Rightarrow> string \<Rightarrow> string \<Rightarrow> bag \<Rightarrow> js_error + preprocess_results"
  postcss_process :: "plugin list \<Rightarrow> string \<Rightarrow> bag \<Rightarrow> string \<Rightarrow> js_error + postcss_result"
  glob_sync :: "string \<Rightarrow> string list"
  asyncReplace :: "string \<Rightarrow> re \<Rightarrow> (string \<times> string \<Rightarrow> js_error + string) \<Rightarrow> js_error + string"
  processSrcSet :: "string \<Rightarrow> (string \<Rightarrow> js_error + string) \<Rightarrow> js_error + string"
  getModuleById :: "string \<Rightarrow> bool"
  entry_url :: "string \<Rightarrow> string"

text \<open>
  What \<^verbatim>\<open>compileCSS\<close> mutates outside its result: the \<^verbatim>\<open>postcssConfigCache\<close>
  entry of the configuration (\<open>None\<close> is \<^verbatim>\<open>undefined\<close>, \<open>Some None\<close> is
  \<^verbatim>\<open>null\<close>), the dev server's \<^verbatim>\<open>_globImporters\<close> and the logger.
\<close>

record cstate =
  postcssConfigCache :: "postcss_config option option"
  globImporters :: "(string \<times> (string \<times> string) list) list"
  warned :: "string list"

text \<open>The record \<^verbatim>\<open>compileCSS\<close> resolves to.\<close>

record compiled =
  c_code :: string
  c_map :: smap
  c_ast :: "postcss_result option"
  c_modules :: "modmap option"
  c_deps :: "string list option"

text \<open>A JavaScript \<^verbatim>\<open>Set\<close> of strings, in insertion order.\<close>

definition set_add :: "string list \<Rightarrow> string \<Rightarrow> string list" where
  "set_add xs x = (if x \<in> set xs then xs else xs @ [x])"

subsection \<open>resolvePostcssConfig\<close>

definition noConfigRE :: re where
  "noConfigRE = Lit ''No PostCSS Config found''"

definition resolvePostcssConfig ::
  "host \<Rightarrow> config \<Rightarrow> cstate \<Rightarrow> cstate \<times> (js_error + postcss_config option)" where
  "resolvePostcssConfig h cfg st =
     (case postcssConfigCache st of
        Some result \<Rightarrow> (st, Inr result)
      | None \<Rightarrow>
         (case css_postcss cfg of
            PostcssInline options plugins \<Rightarrow>
              (let result = Some \<lparr>pcfg_options = options,
                                  pcfg_plugins = Some (case plugins of Some ps \<Rightarrow> ps | None \<Rightarrow> [])\<rparr>
               in (st\<lparr>postcssConfigCache := Some result\<rparr>, Inr result))
          | inlineOptions \<Rightarrow>
              (let searchPath = (case inlineOptions of PostcssPath p \<Rightarrow> p | _ \<Rightarrow> cfg_root cfg)
               in case postcssrc h searchPath of
                    Inr r \<Rightarrow> (st\<lparr>postcssConfigCache := Some (Some r)\<rparr>, Inr (Some r))
                  | Inl e \<Rightarrow>
                      if \<not> re_test noConfigRE (err_message e) then (st, Inl e)
                      else (st\<lparr>postcssConfigCache := Some None\<rparr>, Inr None))))"

subsection \<open>Source maps\<close>

definition formatPostcssSourceMap :: "host \<Rightarrow> rawmap \<Rightarrow> string \<Rightarrow> rawmap" where
  "formatPostcssSourceMap h rawMap file =
     (let inputFileDir = path_dirname h file;
          srcs = map (\<lambda>source. normalizePath h
                        (path_resolve h inputFileDir (cleanUrl h (decodeURIComponent h source))))
                   (filter (\<lambda>source. source \<noteq> ''<no source>'') (sources rawMap))
      in \<lparr>map_file = Some file, mappings = mappings rawMap, names = names rawMap,
          sources = srcs, version = version rawMap\<rparr>)"

definition combineSourcemapsIfExists ::
  "host \<Rightarrow> string \<Rightarrow> rawmap option \<Rightarrow> rawmap option \<Rightarrow> rawmap option" where
  "combineSourcemapsIfExists h filename map_1 map_2 =
     (case (map_1, map_2) of
        (Some m1, Some m2) \<Rightarrow> Some (combineSourcemaps h filename [m1, m2])
      | _ \<Rightarrow> map_1)"

definition smap_of :: "rawmap option \<Rightarrow> smap" where
  "smap_of m = (case m of None \<Rightarrow> MapUndefined | Some x \<Rightarrow> MapOf x)"

subsection \<open>compileCSS\<close>

text \<open>\<^verbatim>\<open>const preProcessors = Object.freeze({less, sass, scss, styl, stylus: styl})\<close>\<close>

definition preProcessors :: "string \<Rightarrow> adapter option" where
  "preProcessors lang =
     (if lang = ''less'' then Some Less
      else if lang = ''sass'' then Some Sass
      else if lang = ''scss'' then Some Scss
      else if lang = ''styl'' then Some Styl
      else if lang = ''stylus'' then Some Styl
      else None)"

definition isPreProcessor :: "string option \<Rightarrow> bool" where
  "isPreProcessor lang = (case lang of None \<Rightarrow> False | Some l \<Rightarrow> preProcessors l \<noteq> None)"

text \<open>
  The default options of step 2: \<^verbatim>\<open>{ includePaths: ['node_modules'], alias, ...opts }\<close>
  for the Sass family, \<^verbatim>\<open>paths\<close> for Less and Stylus; then
  \<^verbatim>\<open>opts.filename = cleanUrl(id)\<close>.
\<close>

definition preprocessor_opts :: "host \<Rightarrow> config \<Rightarrow> string \<Rightarrow> string \<Rightarrow> bag" where
  "preprocessor_opts h cfg lang ident =
     (let user = (case css_preprocessorOptions cfg lang of Some b \<Rightarrow> b | None \<Rightarrow> []);
          key = (if lang = ''scss'' \<or> lang = ''sass'' then ''includePaths'' else ''paths'');
          defaults = [(key, JList [''node_modules'']), (''alias'', JAlias)]
      in AList.update ''filename'' (JStr (cleanUrl h ident)) (spread defaults user))"

text \<open>
  The dependencies the preprocessor reports, without the file itself
  (\<^verbatim>\<open>normalizePath(dep) !== normalizePath(opts.filename)\<close>).
\<close>

definition preprocessor_deps :: "host \<Rightarrow> string \<Rightarrow> string list \<Rightarrow> string list" where
  "preprocessor_deps h filename ds =
     fold (\<lambda>dep deps. if normalizePath h dep \<noteq> normalizePath h filename then set_add deps dep else deps)
       ds []"

text \<open>
  Step 2. The result is the error thrown, or the code, the preprocessor map and the
  dependency set after the step.
\<close>

definition preprocess ::
  "host \<Rightarrow> config \<Rightarrow> string option \<Rightarrow> string \<Rightarrow> string
     \<Rightarrow> js_error + (string \<times> rawmap option \<times> string list)" where
  "preprocess h cfg lang ident code =
     (if isPreProcessor lang then
        (let l = the lang;
             opts = preprocessor_opts h cfg l ident;
             filename = cleanUrl h ident
         in case run_adapter h (the (preProcessors l)) code (cfg_root cfg) opts of
              Inl e \<Rightarrow> Inl e
            | Inr preprocessResult \<Rightarrow>
                if pr_errors preprocessResult \<noteq> [] then Inl (hd (pr_errors preprocessResult))
                else Inr (pr_code preprocessResult,
                          combineSourcemapsIfExists h filename (pr_map preprocessResult)
                            (pr_additionalMap preprocessResult),
                          preprocessor_deps h filename (pr_deps preprocessResult)))
      else Inr (code, None, []))"

text \<open>
  Step 3, the plugin chain: the configured plugins, \<^verbatim>\<open>postcss-import\<close> put in front
  when the source has an \<^verbatim>\<open>@import\<close>, the url rewriter appended, and
  \<^verbatim>\<open>postcss-modules\<close> put in front for a module.
\<close>

definition postcss_plugins :: "postcss_config option \<Rightarrow> bool \<Rightarrow> bool \<Rightarrow> string \<Rightarrow> plugin list" where
  "postcss_plugins postcssConfig needInlineImport isModule ident =
     (let p0 = (case postcssConfig of
                  Some c \<Rightarrow> (case pcfg_plugins c of Some ps \<Rightarrow> map UserPlugin ps | None \<Rightarrow> [])
                | None \<Rightarrow> []);
          p1 = (if needInlineImport then ImportPlugin (re_test htmlProxyRE ident) # p0 else p0);
          p2 = p1 @ [UrlRewritePlugin]
      in if isModule then ModulesPlugin # p2 else p2)"

text \<open>
  Step 4, one message of the postcss run: a dependency, a directory dependency (expanded
  at once, and registered with the dev server when there is one) or a warning.
\<close>

definition dir_pattern :: "host \<Rightarrow> string \<Rightarrow> string \<Rightarrow> string option \<Rightarrow> string" where
  "dir_pattern h ident dir globPattern =
     normalizePath h (path_resolve h (path_dirname h ident) dir) @ ''/''
       @ (case globPattern of Some g \<Rightarrow> g | None \<Rightarrow> ''**'')"

definition truthy :: "nat option \<Rightarrow> bool" where
  "truthy n = (case n of None \<Rightarrow> False | Some k \<Rightarrow> k \<noteq> 0)"

definition record_message ::
  "host \<Rightarrow> config \<Rightarrow> bool \<Rightarrow> string \<Rightarrow> string \<Rightarrow> message
     \<Rightarrow> string list \<times> cstate \<Rightarrow> string list \<times> cstate" where
  "record_message h cfg server ident code m = (\<lambda>(deps, st).
     case m of
       Dependency file \<Rightarrow> (set_add deps (normalizePath h file), st)
     | DirDependency dir globPattern \<Rightarrow>
         (let pattern = dir_pattern h ident dir globPattern;
              deps' = fold (\<lambda>f ds. set_add ds f) (glob_sync h pattern) deps;
              st' = (if server then
                       (let old = (case map_of (globImporters st) ident of Some gs \<Rightarrow> gs | None \<Rightarrow> [])
                        in st\<lparr>globImporters :=
                             AList.update ident (old @ [(cfg_root cfg, pattern)]) (globImporters st)\<rparr>)
                     else st)
          in (deps', st'))
     | Warning txt line col \<Rightarrow>
         (let msg = ''[vite:css] '' @ txt;
              msg' = (if truthy line \<and> truthy col
                      then msg @ [CHR 0x0A] @ generateCodeFrame h code (the line) (the col) else msg)
          in (deps, st\<lparr>warned := warned st @ [msg']\<rparr>))
     | OtherMessage \<Rightarrow> (deps, st))"

text \<open>
  Steps 3 to 5: run postcss over the plugin chain, record the messages, combine the maps.
  \<open>pre\<close> is what step 2 left: the code, the preprocessor map and the dependency set.
\<close>

definition postcss_step ::
  "host \<Rightarrow> config \<Rightarrow> bool \<Rightarrow> string \<Rightarrow> bool \<Rightarrow> bool \<Rightarrow> postcss_config option
     \<Rightarrow> string \<times> rawmap option \<times> string list \<Rightarrow> cstate \<Rightarrow> cstate \<times> (js_error + compiled)" where
  "postcss_step h cfg server ident needInlineImport isModule postcssConfig pre st1 =
     (case pre of (code1, preprocessorMap, deps) \<Rightarrow>
        (let postcssOptions = (case postcssConfig of Some c \<Rightarrow> pcfg_options c | None \<Rightarrow> []);
             postcssPlugins = postcss_plugins postcssConfig needInlineImport isModule ident
         in if postcssPlugins = []
            then (st1, Inr \<lparr>c_code = code1, c_map = smap_of preprocessorMap,
                            c_ast = None, c_modules = None, c_deps = None\<rparr>)
            else
              (case postcss_process h postcssPlugins code1 postcssOptions (cleanUrl h ident) of
                 Inl e \<Rightarrow> (st1, Inl e)
               | Inr postcssResult \<Rightarrow>
                  (case fold (record_message h cfg server ident code1)
                          (pc_messages postcssResult) (deps, st1) of
                     (deps', st2) \<Rightarrow>
                       (let postcssMap = formatPostcssSourceMap h (pc_map postcssResult)
                                           (cleanUrl h ident)
                        in (st2, Inr \<lparr>c_code = pc_css postcssResult,
                              c_map = smap_of (combineSourcemapsIfExists h (cleanUrl h ident)
                                                 (Some postcssMap) preprocessorMap),
                              c_ast = Some postcssResult,
                              c_modules = (if isModule then pc_json postcssResult else None),
                              c_deps = Some deps'\<rparr>))))))"

text \<open>
  \<^verbatim>\<open>compileCSS\<close>: the postcss configuration is resolved first; step 1 returns plain css
  that needs no processing as it is; step 2 runs the preprocessor; then postcss.
\<close>

definition compileCSS ::
  "host \<Rightarrow> config \<Rightarrow> bool \<Rightarrow> string \<Rightarrow> string \<Rightarrow> cstate \<Rightarrow> cstate \<times> (js_error + compiled)" where
  "compileCSS h cfg server ident code st =
     (let isModule = (\<not> css_modules_off cfg \<and> re_test cssModuleRE ident);
          needInlineImport = str_includes code ''@import'';
          hasUrl = (re_test cssUrlRE code \<or> re_test cssImageSetRE code)
      in case resolvePostcssConfig h cfg st of
           (st1, Inl e) \<Rightarrow> (st1, Inl e)
         | (st1, Inr postcssConfig) \<Rightarrow>
            (let lang = (case re_exec cssLangRE ident of Some (_, _, g) \<Rightarrow> g | None \<Rightarrow> None)
             in if lang = Some ''css'' \<and> postcssConfig = None \<and> \<not> isModule
                   \<and> \<not> needInlineImport \<and> \<not> hasUrl
                then (st1, Inr \<lparr>c_code = code, c_map = MapNull, c_ast = None,
                                c_modules = None, c_deps = None\<rparr>)
                else
                  (case preprocess h cfg lang ident code of
                     Inl e \<Rightarrow> (st1, Inl e)
                   | Inr pre \<Rightarrow>
                       postcss_step h cfg server ident needInlineImport isModule postcssConfig pre st1)))"

section \<open>The url rewriter\<close>

text \<open>\<^verbatim>\<open>rawUrl.slice(1, -1)\<close>: without the first and the last character.\<close>

definition slice_1_m1 :: "string \<Rightarrow> string" where
  "slice_1_m1 s = butlast (tl s)"

definition doUrlReplace ::
  "host \<Rightarrow> (string \<Rightarrow> js_error + string) \<Rightarrow> string \<Rightarrow> string \<Rightarrow> js_error + string" where
  "doUrlReplace h replacer rawUrl matched =
     (let first = (case rawUrl of [] \<Rightarrow> None | c # _ \<Rightarrow> Some c);
          quoted = (first = Some (CHR 0x22) \<or> first = Some (CHR 0x27));
          wrap = (if quoted then [the first] else []);
          rawUrl' = (if quoted then slice_1_m1 rawUrl else rawUrl)
      in if isExternalUrl h rawUrl' \<or> isDataUrl h rawUrl' \<or> starts_with rawUrl' ''#''
         then Inr matched
         else (case replacer rawUrl' of
                 Inl e \<Rightarrow> Inl e
               | Inr replaced \<Rightarrow> Inr (''url('' @ wrap @ replaced @ wrap @ '')'')))"

definition doImportCSSReplace ::
  "host \<Rightarrow> (string \<Rightarrow> js_error + string) \<Rightarrow> string \<Rightarrow> string \<Rightarrow> js_error + string" where
  "doImportCSSReplace h replacer rawUrl matched =
     (let first = (case rawUrl of [] \<Rightarrow> None | c # _ \<Rightarrow> Some c);
          quoted = (first = Some (CHR 0x22) \<or> first = Some (CHR 0x27));
          wrap = (if quoted then [the first] else []);
          rawUrl' = (if quoted then slice_1_m1 rawUrl else rawUrl)
      in if isExternalUrl h rawUrl' \<or> isDataUrl h rawUrl' \<or> starts_with rawUrl' ''#''
         then Inr matched
         else (case replacer rawUrl' of
                 Inl e \<Rightarrow> Inl e
               | Inr replaced \<Rightarrow> Inr (''@import '' @ wrap @ replaced @ wrap)))"

text \<open>
  \<^verbatim>\<open>importCssRE = /@import ('[^']+\.css'|"[^"]+\.css"|[^'")]+\.css)/\<close>. The class
  repetition is followed by a literal here, so it is written with \<^const>\<open>Star\<close> after
  one \<^const>\<open>Cls\<close> and backtracks into the literal.
\<close>

definition importCssRE :: re where
  "importCssRE = seqs [Lit ''@import '',
     Grp (alts [seqs [Lit [CHR 0x27], plus (\<lambda>c. c \<noteq> CHR 0x27), Lit ''.css'', Lit [CHR 0x27]],
                seqs [Lit [CHR 0x22], plus (\<lambda>c. c \<noteq> CHR 0x22), Lit ''.css'', Lit [CHR 0x22]],
                seqs [plus (\<lambda>c. c \<noteq> CHR 0x27 \<and> c \<noteq> CHR 0x22 \<and> c \<noteq> CHR '')''), Lit ''.css'']])]"

definition rewriteCssUrls ::
  "host \<Rightarrow> string \<Rightarrow> (string \<Rightarrow> js_error + string) \<Rightarrow> js_error + string" where
  "rewriteCssUrls h css replacer =
     asyncReplace h css cssUrlRE (\<lambda>(matched, rawUrl). doUrlReplace h replacer rawUrl matched)"

definition rewriteImportCss ::
  "host \<Rightarrow> string \<Rightarrow> (string \<Rightarrow> js_error + string) \<Rightarrow> js_error + string" where
  "rewriteImportCss h css replacer =
     asyncReplace h css importCssRE (\<lambda>(matched, rawUrl). doImportCSSReplace h replacer rawUrl matched)"

definition rewriteCssImageSet ::
  "host \<Rightarrow> string \<Rightarrow> (string \<Rightarrow> js_error + string) \<Rightarrow> js_error + string" where
  "rewriteCssImageSet h css replacer =
     asyncReplace h css cssImageSetRE (\<lambda>(matched, rawUrl).
       case processSrcSet h rawUrl (\<lambda>url. doUrlReplace h replacer url matched) of
         Inl e \<Rightarrow> Inl e
       | Inr url \<Rightarrow> Inr (''image-set('' @ url @ '')''))"

section \<open>Loading a preprocessor engine\<close>





section \<open>The plugin applied before user plugins\<close>

text \<open>
  The state of \<^verbatim>\<open>cssPlugin\<close>: the module cache of the build (\<^verbatim>\<open>moduleCache\<close>, a
  \<^verbatim>\<open>Map\<close> from module id to the scoped-class export map), the files handed to
  \<^verbatim>\<open>addWatchFile\<close>, the calls made on the dev server's module graph, and the state
  of the compiler.
\<close>

datatype dep_entry = FileOnlyEntry string | UrlEntry string bool

datatype graph_call =
    UpdateModuleInfo string "dep_entry list" bool bool
  | SetSelfAccepting string bool

record plugin_state =
  moduleCache :: "(string \<times> modmap) list"
  watched :: "string list"
  graph_calls :: "graph_call list"
  compiler :: cstate

text \<open>\<^verbatim>\<open>buildStart\<close>: a new module cache for every build.\<close>

definition buildStart :: "plugin_state \<Rightarrow> plugin_state" where
  "buildStart st = st\<lparr>moduleCache := []\<rparr>"

definition dev_update :: "host \<Rightarrow> string \<Rightarrow> bool \<Rightarrow> compiled \<Rightarrow> plugin_state \<Rightarrow> plugin_state" where
  "dev_update h ident ssr r st =
     (if getModuleById h ident then
        (let isSelfAccepting = (c_modules r = None \<and> \<not> re_test inlineRE ident)
         in case c_deps r of
              Some deps \<Rightarrow>
                (let depModules = fold (\<lambda>file acc.
                        List.insert (if isCSSRequest file then FileOnlyEntry file
                                     else UrlEntry (entry_url h file) ssr) acc) deps []
                 in st\<lparr>graph_calls := graph_calls st
                          @ [UpdateModuleInfo ident (rev depModules) isSelfAccepting ssr],
                       watched := watched st @ deps\<rparr>)
            | None \<Rightarrow> st\<lparr>graph_calls := graph_calls st @ [SetSelfAccepting ident isSelfAccepting]\<rparr>)
      else st)"

text \<open>
  \<^verbatim>\<open>transform\<close>. The result is \<open>None\<close> (\<^verbatim>\<open>undefined\<close>) for a request that is not a
  stylesheet, the error \<^verbatim>\<open>compileCSS\<close> threw, or the code and the map.
\<close>

definition transform ::
  "host \<Rightarrow> config \<Rightarrow> bool \<Rightarrow> string \<Rightarrow> string \<Rightarrow> bool \<Rightarrow> plugin_state
     \<Rightarrow> plugin_state \<times> (js_error + (string \<times> smap) option)" where
  "transform h cfg server raw ident ssr st =
     (if \<not> isCSSRequest ident \<or> re_test commonjsProxyRE ident then (st, Inr None)
      else
        (case compileCSS h cfg server ident raw (compiler st) of
           (cs, Inl e) \<Rightarrow> (st\<lparr>compiler := cs\<rparr>, Inl e)
         | (cs, Inr r) \<Rightarrow>
            (let st1 = st\<lparr>compiler := cs\<rparr>;
                 st2 = (case c_modules r of
                          Some modules \<Rightarrow> st1\<lparr>moduleCache := AList.update ident modules (moduleCache st1)\<rparr>
                        | None \<Rightarrow> st1);
                 st3 = (case c_deps r of
                          Some deps \<Rightarrow>
                            if cfg_command cfg = Build \<and> build_watch cfg
                            then st2\<lparr>watched := watched st2 @ deps\<rparr> else st2
                        | None \<Rightarrow> st2);
                 st4 = (if server then dev_update h ident ssr r st3 else st3)
             in (st4, Inr (Some (c_code r, c_map r))))))"

section \<open>Hoisting of import rules\<close>

text \<open>
  \<^verbatim>\<open>AtImportHoistPlugin\<close> works on the rule tree that postcss parses. A node is a
  declaration, a rule, an at-rule (name and parameters) or a comment, with its child
  nodes. The plugin keeps references to nodes and \<^verbatim>\<open>root.prepend\<close> moves the node
  it is given, so every node carries its identity: a number, distinct from that of every
  other node of the tree.
\<close>

datatype kind = Decl string string | Rule string | AtRule string string | Comment string

datatype node = Node nat kind "node list"

fun node_id :: "node \<Rightarrow> nat" where
  "node_id (Node j k cs) = j"

text \<open>\<^verbatim>\<open>rule.name === 'import'\<close>, for an at-rule.\<close>

fun is_import :: "node \<Rightarrow> bool" where
  "is_import (Node j k cs) = (case k of AtRule name params \<Rightarrow> name = ''import'' | _ \<Rightarrow> False)"

fun node_kind :: "node \<Rightarrow> kind" where
  "node_kind (Node j k cs) = k"

fun children :: "node \<Rightarrow> node list" where
  "children (Node j k cs) = cs"

text \<open>
  \<^verbatim>\<open>walkAtRules\<close> visits every node in document order (a node, then its children,
  then its later siblings); the callback takes the at-rules named \<^verbatim>\<open>import\<close>.
\<close>

fun walk :: "node list \<Rightarrow> node list" where
  "walk [] = []"
| "walk (Node j k cs # ns) = Node j k cs # walk cs @ walk ns"

text \<open>
  \<^verbatim>\<open>root.prepend(i)\<close>: postcss removes the node from its parent, wherever in the tree
  that is, and puts it in front of the children of the root. \<^const>\<open>walk\<close> order finds
  the node that a reference stands for.
\<close>

fun find_id :: "nat \<Rightarrow> node list \<Rightarrow> node option" where
  "find_id i [] = None"
| "find_id i (Node j k cs # ns) =
     (if i = j then Some (Node j k cs)
      else case find_id i cs of Some n \<Rightarrow> Some n | None \<Rightarrow> find_id i ns)"

fun remove_id :: "nat \<Rightarrow> node list \<Rightarrow> node list" where
  "remove_id i [] = []"
| "remove_id i (Node j k cs # ns) =
     (if i = j then remove_id i ns else Node j k (remove_id i cs) # remove_id i ns)"

definition prepend :: "node list \<Rightarrow> nat \<Rightarrow> node list" where
  "prepend root i = (case find_id i root of Some n \<Rightarrow> n # remove_id i root | None \<Rightarrow> root)"

text \<open>
  The plugin: \<^verbatim>\<open>imports.unshift(rule)\<close> for every import rule met, then
  \<^verbatim>\<open>imports.forEach((i) => root.prepend(i))\<close>.
\<close>

definition AtImportHoistPlugin :: "node list \<Rightarrow> node list" where
  "AtImportHoistPlugin root =
     (let imports = fold (\<lambda>rule imports. if is_import rule then node_id rule # imports else imports)
                      (walk root) []
      in fold (\<lambda>i r. prepend r i) imports root)"

text \<open>
  For the statement of what the plugin computes: the tree without its import rules, and
  the import rules in document order, each without the import rules below it.
\<close>

fun strip :: "node list \<Rightarrow> node list" where
  "strip [] = []"
| "strip (Node j k cs # ns) =
     (if is_import (Node j k cs) then strip ns else Node j k (strip cs) # strip ns)"

fun collect :: "node list \<Rightarrow> node list" where
  "collect [] = []"
| "collect (Node j k cs # ns) =
     (if is_import (Node j k cs) then [Node j k (strip cs)] else []) @ collect cs @ collect ns"

text \<open>
  A position in the tree, for the proof: the forest \<open>ns\<close> at the position sits behind
  an earlier sibling, or is the children of a node.
\<close>

datatype ctx = Top | Pre ctx node | Inside ctx nat kind "node list"

fun plug :: "ctx \<Rightarrow> node list \<Rightarrow> node list" where
  "plug Top ns = ns"
| "plug (Pre c n) ns = plug c (n # ns)"
| "plug (Inside c j k right) ns = plug c (Node j k ns # right)"

definition ids :: "node list \<Rightarrow> nat set" where
  "ids ns = node_id ` set (walk ns)"

fun ctx_ids :: "ctx \<Rightarrow> nat set" where
  "ctx_ids Top = {}"
| "ctx_ids (Pre c n) = ctx_ids c \<union> ids [n]"
| "ctx_ids (Inside c j k right) = ctx_ids c \<union> {j} \<union> ids right"

definition imp_ids :: "node list \<Rightarrow> nat list" where
  "imp_ids ns = map node_id (filter is_import (walk ns))"

section \<open>Build aggregation and pruning\<close>

subsection \<open>Data\<close>

text \<open>
  An output chunk as the plugin reads and writes it: \<^verbatim>\<open>fileName\<close>, \<^verbatim>\<open>name\<close>, the keys
  of \<^verbatim>\<open>modules\<close>, \<^verbatim>\<open>imports\<close>, \<^verbatim>\<open>code\<close>, and the two sets of
  \<^verbatim>\<open>viteMetadata\<close>. A bundle is an object from file names to chunks and assets, kept
  as the list of its entries in iteration order, with distinct keys.
\<close>

record chunk =
  fileName :: string
  chunk_name :: string
  chunk_modules :: "string list"
  chunk_imports :: "string list"
  chunk_code :: string
  importedCss :: "string list"
  importedAssets :: "string list"

datatype bundle_item = ChunkItem chunk | AssetItem string

type_synonym output_bundle = "(string \<times> bundle_item) list"

text \<open>
  \<^verbatim>\<open>NormalizedOutputOptions\<close>. The plugin keys a \<^verbatim>\<open>Map\<close> by the options object
  itself, so the object has an identity; it reads \<^verbatim>\<open>format\<close> and the flag
  \<^verbatim>\<open>__vite_skip_asset_emit__\<close>.
\<close>

record output_options =
  opts_id :: nat
  format :: string
  skip_asset_emit :: bool

text \<open>
  What the bundling stage takes from outside this file: the occurrences of
  \<^verbatim>\<open>assetUrlRE\<close> in a text (the text cut into the parts between the matches and, for
  each match, the file hash and the optional postfix) and \<^verbatim>\<open>getAssetFilename\<close>, both
  of \<^verbatim>\<open>./asset\<close>; the parser and the printer of postcss; esbuild's
  \<^verbatim>\<open>transform\<close> with \<^verbatim>\<open>formatMessages\<close> (the code and the formatted warnings);
  the file name rollup gives an emitted asset; \<^verbatim>\<open>JSON.stringify\<close>; and the
  constructor \<^verbatim>\<open>RegExp\<close> of the JavaScript engine, which compiles a pattern text
  or throws a \<^verbatim>\<open>SyntaxError\<close>.
\<close>

record rollup =
  asset_segments :: "string \<Rightarrow> (string + string \<times> string option) list"
  getAssetFilename :: "string \<Rightarrow> string"
  postcss_parse :: "string \<Rightarrow> js_error + node list"
  postcss_stringify :: "node list \<Rightarrow> string"
  esbuild_minify :: "string option \<Rightarrow> string \<Rightarrow> js_error + string \<times> string list"
  asset_file_name :: "string \<Rightarrow> string \<Rightarrow> string"
  json_stringify :: "string \<Rightarrow> string"
  new_RegExp :: "string \<Rightarrow> js_error + re"

text \<open>
  The state of \<^verbatim>\<open>cssPostPlugin\<close>: \<^verbatim>\<open>styles\<close> (filled by its transform hook with
  the css of every stylesheet module that is not inlined), \<^verbatim>\<open>pureCssChunks\<close>,
  \<^verbatim>\<open>outputToExtractedCSSMap\<close> (keyed by the identity of the output options) and
  \<^verbatim>\<open>hasEmitted\<close>; with them the assets handed to \<^verbatim>\<open>emitFile\<close> (name and source),
  the registry \<^verbatim>\<open>removedPureCssFilesCache\<close> of the configuration, and the logger.
\<close>

record post_state =
  styles :: "(string \<times> string) list"
  pureCssChunks :: "string list"
  outputToExtractedCSSMap :: "(nat \<times> string) list"
  hasEmitted :: bool
  emitted :: "(string \<times> string) list"
  removedPureCssFiles :: "(string \<times> bundle_item option) list"
  post_warned :: "string list"

definition post_buildStart :: "post_state \<Rightarrow> post_state" where
  "post_buildStart st = st\<lparr>pureCssChunks := [], outputToExtractedCSSMap := [], hasEmitted := False\<rparr>"

subsection \<open>Strings\<close>

text \<open>
  \<^verbatim>\<open>path.basename\<close> with \<^verbatim>\<open>/\<close> as the separator: trailing separators are
  dropped, then the part after the last separator is taken.
\<close>

definition basename :: "string \<Rightarrow> string" where
  "basename p =
     (let q = dropWhile (\<lambda>c. c = CHR ''/'') (rev p)
      in rev (takeWhile (\<lambda>c. c \<noteq> CHR ''/'') q))"

fun js_join :: "string \<Rightarrow> string list \<Rightarrow> string" where
  "js_join sep [] = []"
| "js_join sep [x] = x"
| "js_join sep (x # xs) = x @ sep @ js_join sep xs"

text \<open>
  \<^verbatim>\<open>String.prototype.replace\<close> with a global regular expression and a callback. The
  text is cut into segments: \<open>Inl\<close> is text that is kept, \<open>Inr\<close> is a match. After a
  match the search goes on behind it (\<open>k\<close> counts the characters of the match still to
  pass); after an empty match the next character is kept and the search goes on behind
  that character.
\<close>

fun segs :: "re \<Rightarrow> nat \<Rightarrow> string \<Rightarrow> string \<Rightarrow> (string + string) list" where
  "segs r (Suc k) d (c # cs) = segs r k (c # d) cs"
| "segs r k d [] =
     (if k = 0 then (case match_here r d [] of Some m \<Rightarrow> [Inr []] | None \<Rightarrow> []) else [])"
| "segs r 0 d (c # cs) =
     (case match_here r d (c # cs) of
        Some m \<Rightarrow>
          Inr (take (fst m) (c # cs))
            # (if fst m = 0 then Inl [c] # segs r 0 (c # d) cs
               else segs r (fst m - 1) (c # d) cs)
      | None \<Rightarrow> Inl [c] # segs r 0 (c # d) cs)"

definition segments :: "re \<Rightarrow> string \<Rightarrow> (string + string) list" where
  "segments r s = segs r 0 [] s"

definition js_replace :: "re \<Rightarrow> (string \<Rightarrow> string) \<Rightarrow> string \<Rightarrow> string" where
  "js_replace r f s = concat (map (case_sum id f) (segments r s))"

subsection \<open>renderChunk\<close>

text \<open>
  The loop over the module ids of the chunk: the css of the modules that have an entry
  in \<^verbatim>\<open>styles\<close>, concatenated, and \<^verbatim>\<open>isPureCssChunk\<close>.
\<close>

definition chunk_css :: "post_state \<Rightarrow> string list \<Rightarrow> string \<times> bool" where
  "chunk_css st module_ids =
     fold (\<lambda>ident (chunkCSS, isPureCssChunk).
             (case map_of (styles st) ident of Some css \<Rightarrow> chunkCSS @ css | None \<Rightarrow> chunkCSS,
              if \<not> isCSSRequest ident \<or> re_test cssModuleRE ident \<or> re_test commonjsProxyRE ident
              then False else isPureCssChunk))
       module_ids ([], True)"

definition hoistAtImports :: "rollup \<Rightarrow> string \<Rightarrow> js_error + string" where
  "hoistAtImports B css =
     (case postcss_parse B css of
        Inl e \<Rightarrow> Inl e
      | Inr root \<Rightarrow> Inr (postcss_stringify B (AtImportHoistPlugin root)))"

definition minifyCSS ::
  "rollup \<Rightarrow> config \<Rightarrow> string \<Rightarrow> post_state \<Rightarrow> post_state \<times> (js_error + string)" where
  "minifyCSS B cfg css st =
     (case esbuild_minify B (build_cssTarget cfg) css of
        Inl e \<Rightarrow> (st, Inl e)
      | Inr (code, msgs) \<Rightarrow>
          (if msgs \<noteq> []
           then st\<lparr>post_warned := post_warned st
                      @ [''warnings when minifying css:'' @ [CHR 0x0A] @ js_join [CHR 0x0A] msgs]\<rparr>
           else st,
           Inr code))"

text \<open>
  \<^verbatim>\<open>processChunkCSS\<close>: the asset placeholders are replaced by the urls of the built
  files (each file is added to \<^verbatim>\<open>importedAssets\<close> of the chunk), the import rules
  are hoisted when the text has an \<^verbatim>\<open>@import\<close>, and the css is minified on demand.
\<close>

definition replace_asset_urls ::
  "host \<Rightarrow> rollup \<Rightarrow> config \<Rightarrow> bool \<Rightarrow> string \<Rightarrow> string list \<Rightarrow> string \<times> string list" where
  "replace_asset_urls h B cfg inlined css assets =
     (let isRelativeBase = (cfg_base cfg = [] \<or> starts_with (cfg_base cfg) ''.'')
      in fold (\<lambda>seg (out, acc).
                 case seg of
                   Inl t \<Rightarrow> (out @ t, acc)
                 | Inr (fileHash, postfix) \<Rightarrow>
                     (let filename = getAssetFilename B fileHash
                                       @ (case postfix of Some p \<Rightarrow> p | None \<Rightarrow> [])
                      in (out @ (if \<not> isRelativeBase \<or> inlined then cfg_base cfg @ filename
                                 else ''./'' @ basename filename),
                          set_add acc (cleanUrl h filename))))
           (asset_segments B css) ([], assets))"

definition processChunkCSS ::
  "host \<Rightarrow> rollup \<Rightarrow> config \<Rightarrow> string \<Rightarrow> bool \<Rightarrow> bool \<Rightarrow> chunk \<times> post_state
     \<Rightarrow> chunk \<times> post_state \<times> (js_error + string)" where
  "processChunkCSS h B cfg css inlined minify = (\<lambda>(chunk, st).
     case replace_asset_urls h B cfg inlined css (importedAssets chunk) of
       (css1, assets) \<Rightarrow>
         (let chunk1 = chunk\<lparr>importedAssets := assets\<rparr>
          in case (if str_includes css1 ''@import'' then hoistAtImports B css1 else Inr css1) of
               Inl e \<Rightarrow> (chunk1, st, Inl e)
             | Inr css2 \<Rightarrow>
                 if minify \<and> build_minify cfg
                 then (case minifyCSS B cfg css2 st of (st1, res) \<Rightarrow> (chunk1, st1, res))
                 else (chunk1, st, Inr css2)))"

text \<open>
  What \<^verbatim>\<open>renderChunk\<close> returns: \<^verbatim>\<open>null\<close>, or new code for the chunk, with or
  without a source map.
\<close>

datatype render_out = RNull | RCode string bool

definition renderChunk ::
  "host \<Rightarrow> rollup \<Rightarrow> config \<Rightarrow> string \<Rightarrow> chunk \<Rightarrow> output_options \<Rightarrow> post_state
     \<Rightarrow> post_state \<times> chunk \<times> (js_error + render_out)" where
  "renderChunk h B cfg code chunk opts st =
     (case chunk_css st (chunk_modules chunk) of
        (chunkCSS, isPureCssChunk) \<Rightarrow>
          if chunkCSS = [] then (st, chunk, Inr RNull)
          else if build_cssCodeSplit cfg then
            (let st1 = (if isPureCssChunk
                        then st\<lparr>pureCssChunks := set_add (pureCssChunks st) (fileName chunk)\<rparr>
                        else st)
             in if format opts = ''es'' \<or> format opts = ''cjs'' then
                  (case processChunkCSS h B cfg chunkCSS False True (chunk, st1) of
                     (chunk1, st2, Inl e) \<Rightarrow> (st2, chunk1, Inl e)
                   | (chunk1, st2, Inr css) \<Rightarrow>
                       (let name = chunk_name chunk @ ''.css''
                        in (st2\<lparr>emitted := emitted st2 @ [(name, css)]\<rparr>,
                            chunk1\<lparr>importedCss := set_add (importedCss chunk1)
                                                     (asset_file_name B name css)\<rparr>,
                            Inr RNull)))
                else if \<not> build_ssr cfg then
                  (case processChunkCSS h B cfg chunkCSS True True (chunk, st1) of
                     (chunk1, st2, Inl e) \<Rightarrow> (st2, chunk1, Inl e)
                   | (chunk1, st2, Inr css) \<Rightarrow>
                       (let injectCode =
                              ''var __vite_style__ = document.createElement('style');''
                              @ ''__vite_style__.innerHTML = '' @ json_stringify B css @ '';''
                              @ ''document.head.appendChild(__vite_style__);''
                        in (st2, chunk1, Inr (RCode (injectCode @ code) (build_sourcemap cfg)))))
                else (st1, chunk, Inr RNull))
          else
            (case processChunkCSS h B cfg chunkCSS False False (chunk, st) of
               (chunk1, st2, Inl e) \<Rightarrow> (st2, chunk1, Inl e)
             | (chunk1, st2, Inr css) \<Rightarrow>
                 (st2\<lparr>outputToExtractedCSSMap :=
                        AList.update (opts_id opts)
                          ((case map_of (outputToExtractedCSSMap st2) (opts_id opts) of
                              Some old \<Rightarrow> old | None \<Rightarrow> []) @ css)
                          (outputToExtractedCSSMap st2)\<rparr>,
                  chunk1, Inr RNull)))"

subsection \<open>generateBundle\<close>

text \<open>
  The regular expression that finds the imports of the empty chunks. The source builds
  its pattern text from the base names of the pure css chunks, joined by \<^verbatim>\<open>|\<close>, with
  every dot escaped by a backslash and nothing else escaped, and hands the text to
  \<^verbatim>\<open>new RegExp\<close>:
  \<^verbatim>\<open>\bimport\s*"[^"]*(?:names)";\n?\<close> for the output format \<^verbatim>\<open>es\<close>, otherwise
  \<^verbatim>\<open>\brequire\(\s*"[^"]*(?:names)"\);\n?\<close>, where \<^verbatim>\<open>\n\<close> is a line feed in the
  text. Characters of a name other than the dot keep the meaning they have in a pattern.
\<close>

definition escape_dots :: "string \<Rightarrow> string" where
  "escape_dots s = concat (map (\<lambda>c. if c = CHR ''.'' then [CHR 0x5C, CHR ''.''] else [c]) s)"

definition emptyChunkFiles :: "string list \<Rightarrow> string" where
  "emptyChunkFiles pure = escape_dots (js_join ''|'' (map basename pure))"

definition emptyChunkRE :: "rollup \<Rightarrow> string \<Rightarrow> string list \<Rightarrow> js_error + re" where
  "emptyChunkRE B fmt pure =
     new_RegExp B
       (if fmt = ''es''
        then [CHR 0x5C] @ ''bimport'' @ [CHR 0x5C] @ ''s*'' @ [CHR 0x22] @ ''[^'' @ [CHR 0x22]
               @ '']*(?:'' @ emptyChunkFiles pure @ '')'' @ [CHR 0x22] @ '';'' @ [CHR 0x0A] @ ''?''
        else [CHR 0x5C] @ ''brequire'' @ [CHR 0x5C] @ ''('' @ [CHR 0x5C] @ ''s*'' @ [CHR 0x22]
               @ ''[^'' @ [CHR 0x22] @ '']*(?:'' @ emptyChunkFiles pure @ '')'' @ [CHR 0x22]
               @ [CHR 0x5C] @ '');'' @ [CHR 0x0A] @ ''?'')"

text \<open>\<^verbatim>\<open>(m) => `/* empty css ${''.padEnd(m.length - 15)}*/`\<close>\<close>

definition placeholder :: "string \<Rightarrow> string" where
  "placeholder m = ''/* empty css '' @ replicate (length m - 15) (CHR '' '') @ ''*/''"

text \<open>
  Destructuring \<^verbatim>\<open>viteMetadata\<close> of something that is not a chunk throws.
\<close>

definition type_error :: js_error where
  "type_error = \<lparr>err_message = ''Cannot read properties of undefined'', err_code = None,
                  err_stack = ''TypeError: Cannot read properties of undefined''\<rparr>"

definition update_chunk :: "string \<Rightarrow> (chunk \<Rightarrow> chunk) \<Rightarrow> output_bundle \<Rightarrow> output_bundle" where
  "update_chunk file f b =
     map (\<lambda>(k, item). if k = file then (k, case item of ChunkItem c \<Rightarrow> ChunkItem (f c)
                                                      | AssetItem a \<Rightarrow> AssetItem a)
                       else (k, item)) b"

text \<open>
  The callback of \<^verbatim>\<open>chunk.imports.filter\<close>, import by import: for an import that is a
  pure css chunk, the css files of that chunk are added to \<^verbatim>\<open>importedCss\<close> of the
  importer (the chunk at \<open>file\<close>).
\<close>

fun relink :: "string list \<Rightarrow> string \<Rightarrow> string list \<Rightarrow> output_bundle \<Rightarrow> js_error + output_bundle" where
  "relink pure file [] b = Inr b"
| "relink pure file (imp # rest) b =
     (if imp \<in> set pure then
        (case map_of b imp of
           Some (ChunkItem removed) \<Rightarrow>
             relink pure file rest
               (update_chunk file
                  (\<lambda>c. c\<lparr>importedCss := fold (\<lambda>f acc. set_add acc f) (importedCss removed) (importedCss c)\<rparr>)
                  b)
         | _ \<Rightarrow> Inl type_error)
      else relink pure file rest b)"

text \<open>The body of the loop over the bundle, for the entry at \<open>file\<close>.\<close>

definition prune_chunk :: "string list \<Rightarrow> re \<Rightarrow> string \<Rightarrow> output_bundle \<Rightarrow> js_error + output_bundle" where
  "prune_chunk pure emptyRE file b =
     (case map_of b file of
        Some (ChunkItem chunk) \<Rightarrow>
          (case relink pure file (chunk_imports chunk) b of
             Inl e \<Rightarrow> Inl e
           | Inr b1 \<Rightarrow>
               Inr (update_chunk file
                      (\<lambda>c. c\<lparr>chunk_imports := filter (\<lambda>f. f \<notin> set pure) (chunk_imports c),
                              chunk_code := js_replace emptyRE placeholder (chunk_code c)\<rparr>)
                      b1))
      | _ \<Rightarrow> Inr b)"

fun prune_all :: "string list \<Rightarrow> re \<Rightarrow> string list \<Rightarrow> output_bundle \<Rightarrow> js_error + output_bundle" where
  "prune_all pure emptyRE [] b = Inr b"
| "prune_all pure emptyRE (file # files) b =
     (case prune_chunk pure emptyRE file b of
        Inl e \<Rightarrow> Inl e
      | Inr b1 \<Rightarrow> prune_all pure emptyRE files b1)"

text \<open>
  \<^verbatim>\<open>pureCssChunks.forEach\<close>: the chunk is recorded in the registry and deleted from the
  bundle.
\<close>

definition remove_pure ::
  "string list \<Rightarrow> (string \<times> bundle_item option) list \<times> output_bundle
     \<Rightarrow> (string \<times> bundle_item option) list \<times> output_bundle" where
  "remove_pure pure = fold (\<lambda>fileName (removed, b).
     (AList.update fileName (map_of b fileName) removed, AList.delete fileName b)) pure"

definition generateBundle ::
  "rollup \<Rightarrow> config \<Rightarrow> output_options \<Rightarrow> output_bundle \<Rightarrow> post_state \<Rightarrow> js_error + post_state \<times> output_bundle" where
  "generateBundle B cfg opts bundle st =
     (if skip_asset_emit opts then Inr (st, bundle)
      else
        (case (if pureCssChunks st \<noteq> [] then
                 (case emptyChunkRE B (format opts) (pureCssChunks st) of
                    Inl e \<Rightarrow> Inl e
                  | Inr emptyRE \<Rightarrow>
                      (case prune_all (pureCssChunks st) emptyRE (map fst bundle) bundle of
                         Inl e \<Rightarrow> Inl e
                       | Inr b1 \<Rightarrow>
                           (case remove_pure (pureCssChunks st) (removedPureCssFiles st, b1) of
                              (removed, b2) \<Rightarrow> Inr (st\<lparr>removedPureCssFiles := removed\<rparr>, b2))))
               else Inr (st, bundle)) of
           Inl e \<Rightarrow> Inl e
         | Inr (st1, b2) \<Rightarrow>
             (case map_of (outputToExtractedCSSMap st1) (opts_id opts) of
                Some extractedCss \<Rightarrow>
                  if extractedCss \<noteq> [] \<and> \<not> hasEmitted st1 then
                    (let st2 = st1\<lparr>hasEmitted := True\<rparr>
                     in case (if build_minify cfg then minifyCSS B cfg extractedCss st2
                              else (st2, Inr extractedCss)) of
                          (st3, Inl e) \<Rightarrow> Inl e
                        | (st3, Inr css) \<Rightarrow>
                            Inr (st3\<lparr>emitted := emitted st3 @ [(''style.css'', css)]\<rparr>, b2))
                  else Inr (st1, b2)
              | None \<Rightarrow> Inr (st1, b2))))"

text \<open>
  One build. Rollup calls \<^verbatim>\<open>buildStart\<close> once, and then, for every output,
  \<^verbatim>\<open>renderChunk\<close> for each chunk of the output and \<^verbatim>\<open>generateBundle\<close> for its
  bundle; all the calls share the state of the plugin. A call that throws ends the
  build.
\<close>

datatype hook =
    RenderChunk string chunk output_options
  | GenerateBundle output_options output_bundle

fun run_hook :: "host \<Rightarrow> rollup \<Rightarrow> config \<Rightarrow> hook \<Rightarrow> post_state \<Rightarrow> js_error + post_state" where
  "run_hook h B cfg (RenderChunk code chunk opts) st =
     (case renderChunk h B cfg code chunk opts st of
        (st1, chunk1, Inl e) \<Rightarrow> Inl e
      | (st1, chunk1, Inr out) \<Rightarrow> Inr st1)"
| "run_hook h B cfg (GenerateBundle opts bundle) st =
     (case generateBundle B cfg opts bundle st of
        Inl e \<Rightarrow> Inl e
      | Inr (st1, b) \<Rightarrow> Inr st1)"

fun run_build :: "host \<Rightarrow> rollup \<Rightarrow> config \<Rightarrow> hook list \<Rightarrow> post_state \<Rightarrow> js_error + post_state" where
  "run_build h B cfg [] st = Inr st"
| "run_build h B cfg (k # ks) st =
     (case run_hook h B cfg k st of
        Inl e \<Rightarrow> Inl e
      | Inr st1 \<Rightarrow> run_build h B cfg ks st1)"

text \<open>
  For the statements about one build: the assets that the \<^verbatim>\<open>generateBundle\<close> calls of
  a run hand to \<^verbatim>\<open>emitFile\<close>, each with the output of its call, in the order of the
  calls (what a call emits is what it appends to the emitted assets).
\<close>

fun hook_emits ::
  "hook \<Rightarrow> post_state \<Rightarrow> post_state \<Rightarrow> (output_options \<times> string \<times> string) list" where
  "hook_emits (RenderChunk code chunk opts) st st1 = []"
| "hook_emits (GenerateBundle opts bundle) st st1 =
     map (\<lambda>asset. (opts, asset)) (drop (length (emitted st)) (emitted st1))"

fun style_emits ::
  "host \<Rightarrow> rollup \<Rightarrow> config \<Rightarrow> hook list \<Rightarrow> post_state \<Rightarrow> (output_options \<times> string \<times> string) list" where
  "style_emits h B cfg [] st = []"
| "style_emits h B cfg (k # ks) st =
     (case run_hook h B cfg k st of
        Inl e \<Rightarrow> []
      | Inr st1 \<Rightarrow> hook_emits k st st1 @ style_emits h B cfg ks st1)"

text \<open>
  For the statements about the finalize passes: the buffer of an output (empty when the
  output has none), and the css that is emitted for a buffer (minified when the build
  minifies).
\<close>

definition buffer_of :: "post_state \<Rightarrow> output_options \<Rightarrow> string" where
  "buffer_of st opts =
     (case map_of (outputToExtractedCSSMap st) (opts_id opts) of Some css \<Rightarrow> css | None \<Rightarrow> [])"

definition final_css :: "rollup \<Rightarrow> config \<Rightarrow> string \<Rightarrow> string" where
  "final_css B cfg css =
     (if build_minify cfg
      then (case esbuild_minify B (build_cssTarget cfg) css of Inr (code, msgs) \<Rightarrow> code | Inl e \<Rightarrow> css)
      else css)"

text \<open>A module id that leaves a chunk pure, as the loop of \<^verbatim>\<open>renderChunk\<close> tests it.\<close>

definition plain_css_id :: "string \<Rightarrow> bool" where
  "plain_css_id ident =
     (isCSSRequest ident \<and> \<not> re_test cssModuleRE ident \<and> \<not> re_test commonjsProxyRE ident)"

text \<open>
  A finalize pass emits the aggregated css: it is not skipped, its output has a
  non-empty buffer, and nothing has been emitted yet.
\<close>

definition fires :: "post_state \<Rightarrow> output_options \<Rightarrow> bool" where
  "fires st opts = (\<not> skip_asset_emit opts \<and> buffer_of st opts \<noteq> [] \<and> \<not> hasEmitted st)"

text \<open>
  For the proof about the loop over the bundle: from \<open>b\<close> to \<open>b'\<close> the chunks stay
  chunks under the same keys and their \<^verbatim>\<open>importedCss\<close> sets only grow.
\<close>

definition grows :: "output_bundle \<Rightarrow> output_bundle \<Rightarrow> bool" where
  "grows b b' \<longleftrightarrow>
     (\<forall>k. (\<forall>c. map_of b k = Some (ChunkItem c) \<longrightarrow>
                (\<exists>c'. map_of b' k = Some (ChunkItem c') \<and> set (importedCss c) \<subseteq> set (importedCss c')))
        \<and> (\<forall>c'. map_of b' k = Some (ChunkItem c') \<longrightarrow>
                (\<exists>c. map_of b k = Some (ChunkItem c) \<and> set (importedCss c) \<subseteq> set (importedCss c'))))"

text \<open>
  And from \<open>b\<close> to \<open>b'\<close> the \<^verbatim>\<open>importedCss\<close> set of a chunk gains only files of the
  set \<open>P\<close>. \<open>css_pool\<close> is the set of the css files of the pure css chunks of a bundle.
\<close>

definition within :: "string set \<Rightarrow> output_bundle \<Rightarrow> output_bundle \<Rightarrow> bool" where
  "within P b b' \<longleftrightarrow>
     (\<forall>k c'. map_of b' k = Some (ChunkItem c') \<longrightarrow>
        (\<exists>c. map_of b k = Some (ChunkItem c) \<and> set (importedCss c') \<subseteq> set (importedCss c) \<union> P))"

definition css_pool :: "string list \<Rightarrow> output_bundle \<Rightarrow> string set" where
  "css_pool pure b =
     set (concat (map (\<lambda>p. case map_of b p of Some (ChunkItem pc) \<Rightarrow> importedCss pc | _ \<Rightarrow> [])
                    pure))"

section \<open>Concrete collaborators for evaluation\<close>

text \<open>
  A host with the simplest behaviour each collaborator can have, used where a theorem is
  evaluated at a concrete input: urls starting with \<^verbatim>\<open>http://\<close>, \<^verbatim>\<open>https://\<close>
  or \<^verbatim>\<open>//\<close> are external, those starting with \<^verbatim>\<open>data:\<close> are data urls,
  paths use \<^verbatim>\<open>/\<close> already, a clean url ends before \<^verbatim>\<open>?\<close> or \<^verbatim>\<open>#\<close>, no
  postcss configuration file exists, postcss returns the css as it is with no message,
  and the replace loop takes the leftmost match of the remaining text, appends the text
  before it and the callback's value, and goes on after the match.
\<close>

fun scan_replace ::
  "nat \<Rightarrow> re \<Rightarrow> (string \<times> string \<Rightarrow> js_error + string) \<Rightarrow> string \<Rightarrow> js_error + string" where
  "scan_replace 0 r f s = Inr s"
| "scan_replace (Suc k) r f s =
     (case re_exec r s of
        None \<Rightarrow> Inr s
      | Some (i, n, g) \<Rightarrow>
          (case f (take n (drop i s), case g of Some x \<Rightarrow> x | None \<Rightarrow> []) of
             Inl e \<Rightarrow> Inl e
           | Inr v \<Rightarrow>
               (case scan_replace k r f (drop (i + n) s) of
                  Inl e \<Rightarrow> Inl e
                | Inr rest \<Rightarrow> Inr (take i s @ v @ rest))))"

definition no_error :: js_error where
  "no_error = \<lparr>err_message = ''No PostCSS Config found in: /'', err_code = None, err_stack = []\<rparr>"

definition empty_map :: rawmap where
  "empty_map = \<lparr>map_file = None, mappings = [], names = [], sources = [], version = 3\<rparr>"

definition plain_host :: host where
  "plain_host = \<lparr>
     isExternalUrl = (\<lambda>u. starts_with u ''http://'' \<or> starts_with u ''https://''
                            \<or> starts_with u ''//''),
     isDataUrl = (\<lambda>u. starts_with (dropWhile is_s u) ''data:''),
     normalizePath = (\<lambda>p. p),
     cleanUrl = takeWhile (\<lambda>c. c \<noteq> CHR ''?'' \<and> c \<noteq> CHR ''#''),
     combineSourcemaps = (\<lambda>f ms. hd ms),
     generateCodeFrame = (\<lambda>c l k. []),
     path_dirname = (\<lambda>p. rev (tl (dropWhile (\<lambda>c. c \<noteq> CHR ''/'') (rev p)))),
     path_resolve = (\<lambda>d p. d @ ''/'' @ p),
     decodeURIComponent = (\<lambda>s. s),
     postcssrc = (\<lambda>p. Inl no_error),
     run_adapter = (\<lambda>a src root opts.
        Inr \<lparr>pr_code = src, pr_map = None, pr_additionalMap = None, pr_errors = [], pr_deps = []\<rparr>),
     postcss_process = (\<lambda>ps css opts file.
        Inr \<lparr>pc_css = css, pc_map = empty_map, pc_messages = [], pc_json = None\<rparr>),
     glob_sync = (\<lambda>p. []),
     asyncReplace = (\<lambda>s r f. scan_replace (length s) r f s),
     processSrcSet = (\<lambda>srcs f. f srcs),
     getModuleById = (\<lambda>i. False),
     entry_url = (\<lambda>f. f)\<rparr>"

definition plain_config :: config where
  "plain_config = \<lparr>
     css_modules_off = False,
     css_preprocessorOptions = (\<lambda>l. None),
     css_postcss = PostcssUnset,
     cfg_root = ''/'',
     cfg_base = ''/'',
     cfg_command = Build,
     build_watch = False,
     build_minify = False,
     build_cssTarget = None,
     build_cssCodeSplit = True,
     build_ssr = False,
     build_sourcemap = False\<rparr>"

text \<open>
  A host whose Sass engine rejects the source: the \<^verbatim>\<open>scss\<close> adapter catches the
  error and returns \<^verbatim>\<open>{ code: '', errors: [e], deps: [] }\<close>.
\<close>

definition sass_error :: js_error where
  "sass_error = \<lparr>err_message = ''Undefined variable.'', err_code = None,
                  err_stack = ''Error: Undefined variable.''\<rparr>"

definition failing_host :: host where
  "failing_host = plain_host\<lparr>run_adapter := (\<lambda>a src root opts.
     Inr \<lparr>pr_code = [], pr_map = None, pr_additionalMap = None,
          pr_errors = [sass_error], pr_deps = []\<rparr>)\<rparr>"

text \<open>
  A configuration with an inline postcss configuration that names one plugin of the
  user (plugin 0), and a host on which that plugin reports a directory dependency on the
  module's own directory (as a plugin that scans the sources does), with two files in
  that directory. Without the plugin in the chain the postcss run sends no message.
\<close>

definition plugin_config :: config where
  "plugin_config = plain_config\<lparr>css_postcss := PostcssInline [] (Some [0])\<rparr>"

definition globbing_host :: host where
  "globbing_host = plain_host\<lparr>
     postcss_process := (\<lambda>ps css opts file.
        Inr \<lparr>pc_css = css, pc_map = empty_map,
             pc_messages = (if UserPlugin 0 \<in> set ps then [DirDependency ''.'' None] else []),
             pc_json = None\<rparr>),
     glob_sync := (\<lambda>p. if p = ''/src/./**'' then [''/src/a.scss'', ''/src/b.scss''] else [])\<rparr>"

text \<open>What \<^verbatim>\<open>/src/a.scss\<close> compiles to on that host under that configuration.\<close>

definition globbed :: compiled where
  "globbed = \<lparr>c_code = ''a{}'',
     c_map = MapOf (empty_map\<lparr>map_file := Some ''/src/a.scss''\<rparr>),
     c_ast = Some \<lparr>pc_css = ''a{}'', pc_map = empty_map,
                   pc_messages = [DirDependency ''.'' None], pc_json = None\<rparr>,
     c_modules = None,
     c_deps = Some [''/src/a.scss'', ''/src/b.scss'']\<rparr>"

text \<open>The files one message of the postcss run contributes to the dependency set.\<close>

definition message_files :: "host \<Rightarrow> string \<Rightarrow> message \<Rightarrow> string list" where
  "message_files h ident m =
     (case m of
        Dependency file \<Rightarrow> [normalizePath h file]
      | DirDependency dir globPattern \<Rightarrow> glob_sync h (dir_pattern h ident dir globPattern)
      | _ \<Rightarrow> [])"

text \<open>
  The url replacer of the example in the specification: a relative url under the base
  path \<^verbatim>\<open>/assets/\<close>.
\<close>

definition assets_replacer :: "string \<Rightarrow> js_error + string" where
  "assets_replacer url = Inr (''/assets/'' @ (if starts_with url ''./'' then drop 2 url else url))"

text \<open>
  A host whose postcss run hands \<^verbatim>\<open>getJSON\<close> an export map that names the css it
  was given, so that two compilations of different sources can be told apart.
\<close>

definition modules_host :: host where
  "modules_host = plain_host\<lparr>
     postcss_process := (\<lambda>ps css opts file.
        Inr \<lparr>pc_css = css, pc_map = empty_map, pc_messages = [],
             pc_json = Some [(''title'', css)]\<rparr>)\<rparr>"








definition fresh_plugin_state :: plugin_state where
  "fresh_plugin_state = \<lparr>moduleCache = [], watched = [], graph_calls = [],
     compiler = \<lparr>postcssConfigCache = None, globImporters = [], warned = []\<rparr>\<rparr>"

text \<open>
  Three transforms in one build session: another module, then the same module id twice,
  its source having changed in between.
\<close>

definition other_run :: "plugin_state \<times> (js_error + (string \<times> smap) option)" where
  "other_run = transform modules_host plain_config False ''.c{}'' ''/src/b.module.css'' False
                 (buildStart fresh_plugin_state)"

definition first_run :: "plugin_state \<times> (js_error + (string \<times> smap) option)" where
  "first_run = transform modules_host plain_config False ''.a{}'' ''/src/a.module.css'' False
                 (fst other_run)"

definition second_run :: "plugin_state \<times> (js_error + (string \<times> smap) option)" where
  "second_run = transform modules_host plain_config False ''.b{}'' ''/src/a.module.css'' False
                  (fst first_run)"

definition fresh_cstate :: cstate where
  "fresh_cstate = \<lparr>postcssConfigCache = None, globImporters = [], warned = []\<rparr>"

text \<open>
  A rule tree: a rule, an import, a media query holding an import and a rule, and a last
  import. \<open>hoisted_tree\<close> is what the hoist plugin makes of it.
\<close>

definition sample_tree :: "node list" where
  "sample_tree =
     [Node 0 (Rule ''a'') [Node 1 (Decl ''color'' ''red'') []],
      Node 2 (AtRule ''import'' ''x.css'') [],
      Node 3 (AtRule ''media'' ''print'')
        [Node 4 (AtRule ''import'' ''y.css'') [], Node 5 (Rule ''b'') []],
      Node 6 (AtRule ''import'' ''z.css'') []]"

definition hoisted_tree :: "node list" where
  "hoisted_tree =
     [Node 2 (AtRule ''import'' ''x.css'') [],
      Node 4 (AtRule ''import'' ''y.css'') [],
      Node 6 (AtRule ''import'' ''z.css'') [],
      Node 0 (Rule ''a'') [Node 1 (Decl ''color'' ''red'') []],
      Node 3 (AtRule ''media'' ''print'') [Node 5 (Rule ''b'') []]]"

text \<open>
  A \<^verbatim>\<open>RegExp\<close> constructor for evaluation. It reads the pattern character by
  character, with a stack of the groups that are open: each group has its finished
  alternatives and the items of the alternative being read (both latest first), and
  whether the last item may take a quantifier or has just taken one. It reads literals,
  escapes, \<^verbatim>\<open>.\<close>, character classes with ranges, groups, alternation, the assertions
  \<^verbatim>\<open>^\<close>, \<^verbatim>\<open>$\<close>, \<^verbatim>\<open>\b\<close> and the greedy quantifiers \<^verbatim>\<open>*\<close>, \<^verbatim>\<open>+\<close>,
  \<^verbatim>\<open>?\<close>, and throws the \<^verbatim>\<open>SyntaxError\<close> of the engine for a pattern that is
  not well formed. A group is not recorded as a capture, since the replace callback of
  the plugin reads the matched text only. Lazy quantifiers, braces, back references,
  numeric and unicode escapes, \<^verbatim>\<open>\B\<close>, look-around and named groups are outside of
  what it reads: for them it returns the error \<open>regexp_refused\<close>.
\<close>

definition regexp_error :: "string \<Rightarrow> js_error" where
  "regexp_error msg = \<lparr>err_message = ''Invalid regular expression: '' @ msg, err_code = None,
     err_stack = ''SyntaxError: Invalid regular expression: '' @ msg\<rparr>"

definition regexp_refused :: js_error where
  "regexp_refused = \<lparr>err_message = ''pattern syntax not read'', err_code = None, err_stack = []\<rparr>"

type_synonym frame = "re list \<times> re list \<times> bool \<times> bool"

datatype pmode =
    PNormal
  | PEscape
  | PGroup
  | PGroupQ
  | PClass bool bool "(char \<Rightarrow> bool) list" "char option" bool
  | PClassEscape bool "(char \<Rightarrow> bool) list" "char option" bool

fun push_item :: "re \<Rightarrow> bool \<Rightarrow> frame list \<Rightarrow> frame list" where
  "push_item x q [] = []"
| "push_item x q ((al, sq, _, _) # fs) = (al, x # sq, q, False) # fs"

fun build_frame :: "frame \<Rightarrow> re" where
  "build_frame (al, sq, _, _) = alts (rev (seqs (rev sq) # al))"

definition quantify :: "char \<Rightarrow> re \<Rightarrow> re" where
  "quantify c x =
     (if c = CHR ''*'' then (case x of Cls p \<Rightarrow> Star p | _ \<Rightarrow> Rep x)
      else if c = CHR ''+'' then (case x of Cls p \<Rightarrow> Seq (Cls p) (Star p) | _ \<Rightarrow> Seq x (Rep x))
      else Alt x (Lit []))"

definition is_d :: "char \<Rightarrow> bool" where
  "is_d c = (let n = (of_char c :: nat) in 48 \<le> n \<and> n \<le> 57)"

definition class_escape :: "char \<Rightarrow> (char \<Rightarrow> bool) option" where
  "class_escape e =
     (if e = CHR ''s'' then Some is_s else if e = CHR ''S'' then Some (\<lambda>c. \<not> is_s c)
      else if e = CHR ''w'' then Some is_w else if e = CHR ''W'' then Some (\<lambda>c. \<not> is_w c)
      else if e = CHR ''d'' then Some is_d else if e = CHR ''D'' then Some (\<lambda>c. \<not> is_d c)
      else None)"

definition control_escape :: "char \<Rightarrow> char" where
  "control_escape e =
     (if e = CHR ''n'' then CHR 0x0A else if e = CHR ''t'' then CHR 0x09
      else if e = CHR ''r'' then CHR 0x0D else if e = CHR ''f'' then CHR 0x0C
      else if e = CHR ''v'' then CHR 0x0B else e)"

definition refused_escape :: "char \<Rightarrow> bool" where
  "refused_escape e = (is_d e \<or> e \<in> set ''xuckBpP'')"

definition normal_step :: "frame list \<Rightarrow> char \<Rightarrow> js_error + frame list \<times> pmode" where
  "normal_step fs c =
     (if c = CHR 0x5C then Inr (fs, PEscape)
      else if c = CHR ''('' then Inr (fs, PGroup)
      else if c = CHR '')'' then
        (case fs of
           f # (al, sq, _, _) # rest \<Rightarrow> Inr ((al, build_frame f # sq, True, False) # rest, PNormal)
         | _ \<Rightarrow> Inl (regexp_error ''Unmatched )''))
      else if c = CHR ''|'' then
        (case fs of
           (al, sq, _, _) # rest \<Rightarrow> Inr ((seqs (rev sq) # al, [], False, False) # rest, PNormal)
         | [] \<Rightarrow> Inl (regexp_error ''Unmatched )''))
      else if c = CHR ''*'' \<or> c = CHR ''+'' \<or> c = CHR ''?'' then
        (case fs of
           (al, x # sq, q, l) # rest \<Rightarrow>
             if q then Inr ((al, quantify c x # sq, False, True) # rest, PNormal)
             else if l \<and> c = CHR ''?'' then Inl regexp_refused
             else Inl (regexp_error ''Nothing to repeat'')
         | _ \<Rightarrow> Inl (regexp_error ''Nothing to repeat''))
      else if c = CHR ''['' then Inr (fs, PClass True False [] None False)
      else if c = CHR ''^'' then Inr (push_item Bol False fs, PNormal)
      else if c = CHR ''$'' then Inr (push_item Eol False fs, PNormal)
      else if c = CHR ''.'' then
        Inr (push_item (Cls (\<lambda>x. x \<noteq> CHR 0x0A \<and> x \<noteq> CHR 0x0D)) True fs, PNormal)
      else if c = CHR ''{'' then Inl regexp_refused
      else Inr (push_item (Lit [c]) True fs, PNormal))"

definition escape_step :: "frame list \<Rightarrow> char \<Rightarrow> js_error + frame list \<times> pmode" where
  "escape_step fs e =
     (if e = CHR ''b'' then Inr (push_item WordB False fs, PNormal)
      else case class_escape e of
             Some p \<Rightarrow> Inr (push_item (Cls p) True fs, PNormal)
           | None \<Rightarrow>
               if refused_escape e then Inl regexp_refused
               else Inr (push_item (Lit [control_escape e]) True fs, PNormal))"

text \<open>
  Inside a character class: the members read so far, the last single character (it may
  start a range), and whether a \<^verbatim>\<open>-\<close> has followed it.
\<close>

definition flush_class :: "(char \<Rightarrow> bool) list \<Rightarrow> char option \<Rightarrow> bool \<Rightarrow> (char \<Rightarrow> bool) list" where
  "flush_class items prev dash =
     (case prev of
        Some a \<Rightarrow> (\<lambda>x. x = a) # (if dash then (\<lambda>x. x = CHR ''-'') # items else items)
      | None \<Rightarrow> items)"

definition class_char ::
  "frame list \<Rightarrow> bool \<Rightarrow> (char \<Rightarrow> bool) list \<Rightarrow> char option \<Rightarrow> bool \<Rightarrow> bool \<Rightarrow> char
     \<Rightarrow> js_error + frame list \<times> pmode" where
  "class_char fs neg items prev dash escaped c =
     (case prev of
        Some a \<Rightarrow>
          if dash then
            (if (of_char a :: nat) \<le> of_char c
             then Inr (fs, PClass False neg
                             ((\<lambda>x. (of_char a :: nat) \<le> of_char x \<and> (of_char x :: nat) \<le> of_char c) # items)
                             None False)
             else Inl (regexp_error ''Range out of order in character class''))
          else if c = CHR ''-'' \<and> \<not> escaped then Inr (fs, PClass False neg items (Some a) True)
          else Inr (fs, PClass False neg ((\<lambda>x. x = a) # items) (Some c) False)
      | None \<Rightarrow> Inr (fs, PClass False neg items (Some c) False))"

definition pstep :: "frame list \<Rightarrow> pmode \<Rightarrow> char \<Rightarrow> js_error + frame list \<times> pmode" where
  "pstep fs mode c =
     (case mode of
        PNormal \<Rightarrow> normal_step fs c
      | PEscape \<Rightarrow> escape_step fs c
      | PGroup \<Rightarrow>
          if c = CHR ''?'' then Inr (fs, PGroupQ) else normal_step (([], [], False, False) # fs) c
      | PGroupQ \<Rightarrow>
          if c = CHR '':'' then Inr (([], [], False, False) # fs, PNormal)
          else if c = CHR ''='' \<or> c = CHR ''!'' \<or> c = CHR ''<'' then Inl regexp_refused
          else Inl (regexp_error ''Invalid group'')
      | PClass first neg items prev dash \<Rightarrow>
          if c = CHR '']'' then
            Inr (push_item (Cls (\<lambda>x. list_ex (\<lambda>p. p x) (flush_class items prev dash) \<noteq> neg)) True fs,
                 PNormal)
          else if c = CHR 0x5C then Inr (fs, PClassEscape neg items prev dash)
          else if first \<and> c = CHR ''^'' then Inr (fs, PClass False True [] None False)
          else class_char fs neg items prev dash False c
      | PClassEscape neg items prev dash \<Rightarrow>
          (case class_escape c of
             Some p \<Rightarrow> Inr (fs, PClass False neg (p # flush_class items prev dash) None False)
           | None \<Rightarrow>
               if c = CHR ''b'' then class_char fs neg items prev dash True (CHR 0x08)
               else if refused_escape c then Inl regexp_refused
               else class_char fs neg items prev dash True (control_escape c)))"

definition pfinish :: "frame list \<Rightarrow> pmode \<Rightarrow> js_error + re" where
  "pfinish fs mode =
     (case mode of
        PNormal \<Rightarrow> (case fs of [f] \<Rightarrow> Inr (build_frame f)
                               | _ \<Rightarrow> Inl (regexp_error ''Unterminated group''))
      | PEscape \<Rightarrow> Inl (regexp_error ([CHR 0x5C] @ '' at end of pattern''))
      | PGroup \<Rightarrow> Inl (regexp_error ''Unterminated group'')
      | PGroupQ \<Rightarrow> Inl (regexp_error ''Invalid group'')
      | PClass first neg items prev dash \<Rightarrow> Inl (regexp_error ''Unterminated character class'')
      | PClassEscape neg items prev dash \<Rightarrow> Inl (regexp_error ''Unterminated character class''))"

fun parse_chars :: "frame list \<Rightarrow> pmode \<Rightarrow> string \<Rightarrow> js_error + re" where
  "parse_chars fs mode [] = pfinish fs mode"
| "parse_chars fs mode (c # cs) =
     (case pstep fs mode c of
        Inl e \<Rightarrow> Inl e
      | Inr (fs1, mode1) \<Rightarrow> parse_chars fs1 mode1 cs)"

definition regexp_parse :: "string \<Rightarrow> js_error + re" where
  "regexp_parse pattern = parse_chars [([], [], False, False)] PNormal pattern"

text \<open>
  A bundler with the simplest behaviour: no asset placeholders, postcss neither parses
  nor prints anything but the empty tree, esbuild returns the css as it is without
  warnings, an asset is written under \<^verbatim>\<open>assets/\<close> with its name.
\<close>

definition plain_rollup :: rollup where
  "plain_rollup = \<lparr>
     asset_segments = (\<lambda>css. [Inl css]),
     getAssetFilename = (\<lambda>hash. hash),
     postcss_parse = (\<lambda>css. Inr []),
     postcss_stringify = (\<lambda>root. []),
     esbuild_minify = (\<lambda>target css. Inr (css, [])),
     asset_file_name = (\<lambda>name source. ''assets/'' @ name),
     json_stringify = (\<lambda>s. [CHR 0x22] @ s @ [CHR 0x22]),
     new_RegExp = regexp_parse\<rparr>"

text \<open>
  A postcss for flat stylesheets: a statement is an at-rule without a block,
  \<^verbatim>\<open>@name params;\<close>, or a rule, \<^verbatim>\<open>selector{declarations}\<close>. The names are kept as
  they are written, the nodes are numbered in document order, and the printer writes a
  tree back in the same form.
\<close>

fun css_statements :: "string \<Rightarrow> bool \<Rightarrow> string \<Rightarrow> string list" where
  "css_statements acc inside [] = (if acc = [] then [] else [rev acc])"
| "css_statements acc inside (c # cs) =
     (if c = CHR ''}'' \<or> (c = CHR '';'' \<and> \<not> inside) then rev (c # acc) # css_statements [] False cs
      else css_statements (c # acc) (inside \<or> c = CHR ''{'') cs)"

definition split_at :: "char \<Rightarrow> string \<Rightarrow> string \<times> string" where
  "split_at c s = (takeWhile (\<lambda>x. x \<noteq> c) s, drop 1 (dropWhile (\<lambda>x. x \<noteq> c) s))"

fun split_all :: "char \<Rightarrow> string \<Rightarrow> string \<Rightarrow> string list" where
  "split_all sep acc [] = (if acc = [] then [] else [rev acc])"
| "split_all sep acc (c # cs) =
     (if c = sep then (if acc = [] then [] else [rev acc]) @ split_all sep [] cs
      else split_all sep (c # acc) cs)"

definition without_last :: "char \<Rightarrow> string \<Rightarrow> string" where
  "without_last c s = (if s \<noteq> [] \<and> last s = c then butlast s else s)"

definition css_node :: "string \<Rightarrow> kind \<times> kind list" where
  "css_node s =
     (if starts_with s ''@''
      then (case split_at (CHR '' '') (without_last (CHR '';'') (tl s)) of
              (name, params) \<Rightarrow> (AtRule name params, []))
      else (case split_at (CHR ''{'') s of
              (sel, body) \<Rightarrow>
                (Rule sel,
                 map (\<lambda>d. case split_at (CHR '':'') d of (p, v) \<Rightarrow> Decl p v)
                   (split_all (CHR '';'') [] (without_last (CHR ''}'') body)))))"

fun number_nodes :: "nat \<Rightarrow> (kind \<times> kind list) list \<Rightarrow> node list" where
  "number_nodes n [] = []"
| "number_nodes n ((k, ds) # rest) =
     Node n k (map (\<lambda>(i, d). Node i d []) (zip [Suc n ..< Suc n + length ds] ds))
       # number_nodes (Suc n + length ds) rest"

fun css_print :: "node \<Rightarrow> string" where
  "css_print (Node i k cs) =
     (case k of
        Decl p v \<Rightarrow> p @ '':'' @ v
      | Comment t \<Rightarrow> ''/*'' @ t @ ''*/''
      | AtRule name params \<Rightarrow>
          ''@'' @ name @ (if params = [] then [] else '' '' @ params)
            @ (if cs = [] then '';'' else ''{'' @ concat (map css_print cs) @ ''}'')
      | Rule sel \<Rightarrow> sel @ ''{'' @ js_join '';'' (map css_print cs) @ ''}'')"

definition flat_rollup :: rollup where
  "flat_rollup = plain_rollup\<lparr>
     postcss_parse := (\<lambda>css. Inr (number_nodes 0 (map css_node (css_statements [] False css)))),
     postcss_stringify := (\<lambda>root. concat (map css_print root))\<rparr>"

definition fresh_post_state :: post_state where
  "fresh_post_state = \<lparr>styles = [], pureCssChunks = [], outputToExtractedCSSMap = [],
     hasEmitted = False, emitted = [], removedPureCssFiles = [], post_warned = []\<rparr>"

definition es_output :: output_options where
  "es_output = \<lparr>opts_id = 1, format = ''es'', skip_asset_emit = False\<rparr>"

definition cjs_output :: output_options where
  "cjs_output = \<lparr>opts_id = 2, format = ''cjs'', skip_asset_emit = False\<rparr>"

definition legacy_output :: output_options where
  "legacy_output = \<lparr>opts_id = 3, format = ''es'', skip_asset_emit = True\<rparr>"

definition new_chunk :: "string \<Rightarrow> string \<Rightarrow> string list \<Rightarrow> string list \<Rightarrow> string \<Rightarrow> chunk" where
  "new_chunk file name mods imps code = \<lparr>fileName = file, chunk_name = name, chunk_modules = mods,
     chunk_imports = imps, chunk_code = code, importedCss = [], importedAssets = []\<rparr>"

text \<open>
  A build with two stylesheet modules recorded by the transform hook, one of them a CSS
  module, and three chunks: one holding the plain stylesheet only, one holding the CSS
  module only, and an entry chunk that imports the first.
\<close>

definition styled :: post_state where
  "styled = (post_buildStart fresh_post_state)
     \<lparr>styles := [(''/src/a.css'', ''a{}''), (''/src/m.module.css'', ''.m{}'')]\<rparr>"

definition css_chunk :: chunk where
  "css_chunk = new_chunk ''assets/a.js'' ''a'' [''/src/a.css''] [] []"

definition module_chunk :: chunk where
  "module_chunk = new_chunk ''assets/m.js'' ''m'' [''/src/m.module.css''] [] []"

definition split_config :: config where
  "split_config = plain_config\<lparr>build_cssCodeSplit := True\<rparr>"

definition single_config :: config where
  "single_config = plain_config\<lparr>build_cssCodeSplit := False\<rparr>"

text \<open>
  One build with two outputs and no code splitting, as rollup runs it: for each output
  the chunk is rendered and then the bundle of the output is finalized.
\<close>

definition es_pass :: "hook list" where
  "es_pass = [RenderChunk [] css_chunk es_output,
              GenerateBundle es_output [(''assets/a.js'', ChunkItem css_chunk)]]"

definition cjs_render :: hook where
  "cjs_render = RenderChunk [] css_chunk cjs_output"

definition cjs_finalize :: hook where
  "cjs_finalize = GenerateBundle cjs_output [(''assets/a.js'', ChunkItem css_chunk)]"

text \<open>
  A build with code splitting: the chunk of the plain stylesheet is rendered for the
  \<^verbatim>\<open>es\<close> output, which registers it as pure css and records its css file; the bundle
  holds that chunk and an entry chunk that imports it. \<open>pruned\<close> is the finalize pass.
\<close>

definition pruning_state :: post_state where
  "pruning_state = fst (renderChunk plain_host plain_rollup split_config [] css_chunk es_output styled)"

definition rendered_css_chunk :: chunk where
  "rendered_css_chunk =
     fst (snd (renderChunk plain_host plain_rollup split_config [] css_chunk es_output styled))"

definition main_chunk :: chunk where
  "main_chunk = new_chunk ''assets/main.js'' ''main'' [''/src/main.js''] [''assets/a.js'']
     (''import '' @ [CHR 0x22] @ ''./a.js'' @ [CHR 0x22] @ '';'' @ [CHR 0x0A] @ ''main();'')"

definition pruning_bundle :: output_bundle where
  "pruning_bundle = [(''assets/a.js'', ChunkItem rendered_css_chunk),
                     (''assets/main.js'', ChunkItem main_chunk)]"

definition pruned :: "js_error + post_state \<times> output_bundle" where
  "pruned = generateBundle plain_rollup split_config es_output pruning_bundle pruning_state"

text \<open>
  The same build with chunk files named after the chunk alone
  (\<^verbatim>\<open>chunkFileNames: '[name]'\<close>) and minified code.
\<close>

definition short_css_chunk :: chunk where
  "short_css_chunk = new_chunk ''a'' ''a'' [''/src/a.css''] [] []"

definition short_state :: post_state where
  "short_state =
     fst (renderChunk plain_host plain_rollup split_config [] short_css_chunk es_output styled)"

definition short_rendered :: chunk where
  "short_rendered =
     fst (snd (renderChunk plain_host plain_rollup split_config [] short_css_chunk es_output styled))"

definition short_main :: chunk where
  "short_main = new_chunk ''main'' ''main'' [''/src/main.js''] [''a'']
     (''import'' @ [CHR 0x22] @ ''./a'' @ [CHR 0x22] @ '';main();'')"

definition short_bundle :: output_bundle where
  "short_bundle = [(''a'', ChunkItem short_rendered), (''main'', ChunkItem short_main)]"

section \<open>Properties of the compiler\<close>

subsection \<open>Strings\<close>

lemma starts_with_iff: "starts_with s p \<longleftrightarrow> (\<exists>b. s = p @ b)"
  unfolding starts_with_def
  by (metis append_eq_conv_conj append_take_drop_id)

text \<open>\<^const>\<open>str_includes\<close> is the substring test.\<close>

lemma str_includes_iff: "str_includes s p \<longleftrightarrow> (\<exists>a b. s = a @ p @ b)"
proof (induction s)
  case Nil
  then show ?case by auto
next
  case (Cons c cs)
  show ?case
  proof
    assume "str_includes (c # cs) p"
    then consider "starts_with (c # cs) p" | "str_includes cs p" by auto
    then show "\<exists>a b. c # cs = a @ p @ b"
    proof cases
      case 1
      then obtain b where "c # cs = p @ b" by (auto simp: starts_with_iff)
      then have "c # cs = [] @ p @ b" by simp
      then show ?thesis by blast
    next
      case 2
      then obtain a b where "cs = a @ p @ b" using Cons.IH by auto
      then have "c # cs = (c # a) @ p @ b" by simp
      then show ?thesis by blast
    qed
  next
    assume "\<exists>a b. c # cs = a @ p @ b"
    then obtain a b where ab: "c # cs = a @ p @ b" by auto
    show "str_includes (c # cs) p"
    proof (cases a)
      case Nil
      with ab have "starts_with (c # cs) p" by (auto simp: starts_with_iff)
      then show ?thesis by simp
    next
      case (Cons x a')
      with ab have "cs = a' @ p @ b" by simp
      then have "str_includes cs p" using Cons.IH by blast
      then show ?thesis by simp
    qed
  qed
qed

subsection \<open>The fast path\<close>

text \<open>
  Claim C1. A stylesheet whose id has the language \<^verbatim>\<open>css\<close>, with no resolved postcss
  configuration, whose id does not match the CSS-modules naming convention and whose
  source has no \<^verbatim>\<open>@import\<close> substring and no \<^verbatim>\<open>url()\<close> or \<^verbatim>\<open>image-set()\<close>
  occurrence, compiles to the input code unchanged, with the map \<^verbatim>\<open>null\<close> and no
  dependency set (and no scoped exports, no postcss result).
\<close>

theorem compileCSS_fast_path:
  assumes lang: "re_exec cssLangRE ident = Some (i, n, Some ''css'')"
      and cfg: "snd (resolvePostcssConfig h cfg st) = Inr None"
      and nomod: "\<not> re_test cssModuleRE ident"
      and noimp: "\<not> str_includes code ''@import''"
      and nourl: "\<not> re_test cssUrlRE code"
      and noset: "\<not> re_test cssImageSetRE code"
  shows "snd (compileCSS h cfg server ident code st) =
           Inr \<lparr>c_code = code, c_map = MapNull, c_ast = None, c_modules = None, c_deps = None\<rparr>"
proof -
  obtain st1 where "resolvePostcssConfig h cfg st = (st1, Inr None)"
    using cfg by (cases "resolvePostcssConfig h cfg st") auto
  then show ?thesis
    using lang nomod noimp nourl noset by (simp add: compileCSS_def)
qed

theorem compileCSS_fast_path_witness:
  "snd (compileCSS plain_host plain_config False ''/src/a.css'' ''a{color:red}'' fresh_cstate) =
     Inr \<lparr>c_code = ''a{color:red}'', c_map = MapNull, c_ast = None, c_modules = None, c_deps = None\<rparr>"
proof -
  have 1: "re_exec cssLangRE ''/src/a.css'' = Some (6, 4, Some ''css'')" by code_simp
  have 2: "snd (resolvePostcssConfig plain_host plain_config fresh_cstate) = Inr None"
    by code_simp
  have 3: "\<not> re_test cssModuleRE ''/src/a.css''" by code_simp
  have 4: "\<not> str_includes ''a{color:red}'' ''@import''" by code_simp
  have 5: "\<not> re_test cssUrlRE ''a{color:red}''" by code_simp
  have 6: "\<not> re_test cssImageSetRE ''a{color:red}''" by code_simp
  show ?thesis by (rule compileCSS_fast_path [OF 1 2 3 4 5 6])
qed

subsection \<open>Preprocessor failure\<close>

text \<open>
  Claim C7. The adapter is reached once the postcss configuration has been resolved and
  the id names a preprocessor dialect. When the adapter then returns a non-empty
  \<^verbatim>\<open>errors\<close> array, \<^verbatim>\<open>compileCSS\<close> throws the first error of the array: the result
  is that error and no compiled record (no code, map or dependencies).
\<close>

theorem compileCSS_preprocessor_error:
  assumes cfg: "snd (resolvePostcssConfig h cfg st) = Inr pc"
      and lang: "re_exec cssLangRE ident = Some (i, n, Some l)"
      and pre: "preProcessors l = Some a"
      and run: "run_adapter h a code (cfg_root cfg) (preprocessor_opts h cfg l ident) = Inr r"
      and errs: "pr_errors r = e # es"
  shows "snd (compileCSS h cfg server ident code st) = Inl e"
proof -
  obtain st1 where 1: "resolvePostcssConfig h cfg st = (st1, Inr pc)"
    using cfg by (cases "resolvePostcssConfig h cfg st") auto
  have 2: "l \<noteq> ''css''" using pre by (auto simp: preProcessors_def)
  have 3: "preprocess h cfg (Some l) ident code = Inl e"
    using pre run errs by (simp add: preprocess_def isPreProcessor_def)
  show ?thesis
    using 1 2 3 lang by (simp add: compileCSS_def)
qed

theorem compileCSS_preprocessor_error_witness:
  "snd (compileCSS failing_host plain_config False ''/src/a.scss'' ''a{b:$c}'' fresh_cstate)
     = Inl sass_error"
proof -
  have 1: "snd (resolvePostcssConfig failing_host plain_config fresh_cstate) = Inr None"
    by code_simp
  have 2: "re_exec cssLangRE ''/src/a.scss'' = Some (6, 5, Some ''scss'')" by code_simp
  have 3: "preProcessors ''scss'' = Some Scss" by code_simp
  have 4: "run_adapter failing_host Scss ''a{b:$c}'' (cfg_root plain_config)
             (preprocessor_opts failing_host plain_config ''scss'' ''/src/a.scss'')
           = Inr \<lparr>pr_code = [], pr_map = None, pr_additionalMap = None,
                  pr_errors = [sass_error], pr_deps = []\<rparr>"
    by (simp add: failing_host_def)
  show ?thesis
    by (rule compileCSS_preprocessor_error [OF 1 2 3 4]) simp
qed

subsection \<open>The dependency set\<close>

lemma set_set_add: "set (set_add xs x) = insert x (set xs)"
  by (auto simp: set_add_def)

lemma set_fold_set_add: "set (fold (\<lambda>f ds. set_add ds f) fs deps) = set deps \<union> set fs"
  by (induction fs arbitrary: deps) (auto simp: set_set_add)

lemma set_record_message:
  "set (fst (record_message h cfg server ident code m (deps, st)))
     = set deps \<union> set (message_files h ident m)"
  by (cases m) (auto simp: record_message_def message_files_def set_set_add set_fold_set_add Let_def)

lemma set_fold_record_message:
  "set (fst (fold (record_message h cfg server ident code) ms (deps, st)))
     = set deps \<union> (\<Union>m\<in>set ms. set (message_files h ident m))"
proof (induction ms arbitrary: deps st)
  case Nil
  then show ?case by simp
next
  case (Cons m ms)
  obtain deps1 st1 where 1: "record_message h cfg server ident code m (deps, st) = (deps1, st1)"
    by (cases "record_message h cfg server ident code m (deps, st)")
  have "set deps1 = set deps \<union> set (message_files h ident m)"
    using set_record_message [of h cfg server ident code m deps st] 1 by simp
  then show ?case using Cons.IH [of deps1 st1] 1 by auto
qed

lemma set_preprocessor_fold:
  "set (fold (\<lambda>dep deps. if normalizePath h dep \<noteq> normalizePath h f then set_add deps dep else deps) ds acc)
     = set acc \<union> {d \<in> set ds. normalizePath h d \<noteq> normalizePath h f}"
  by (induction ds arbitrary: acc) (auto simp: set_set_add)

text \<open>Step 2 keeps exactly the reported dependencies that are not the file itself.\<close>

lemma set_preprocessor_deps:
  "set (preprocessor_deps h f ds) = {d \<in> set ds. normalizePath h d \<noteq> normalizePath h f}"
  by (simp add: preprocessor_deps_def set_preprocessor_fold)

lemma preprocess_deps_not_self:
  assumes "preprocess h cfg lang ident code = Inr (code1, pm, deps)" and "d \<in> set deps"
  shows "normalizePath h d \<noteq> normalizePath h (cleanUrl h ident)"
  using assms
  by (auto simp: preprocess_def Let_def set_preprocessor_deps split: if_splits sum.splits)

lemma postcss_step_deps:
  assumes "snd (postcss_step h cfg server ident imp isModule pc (code1, pm, deps0) st1) = Inr r"
      and "c_deps r = Some ds"
  shows "\<exists>pres. c_ast r = Some pres \<and>
           set ds = set deps0 \<union> (\<Union>m\<in>set (pc_messages pres). set (message_files h ident m))"
proof -
  define plugins where "plugins = postcss_plugins pc imp isModule ident"
  define opts where "opts = (case pc of Some c \<Rightarrow> pcfg_options c | None \<Rightarrow> [])"
  have ne: "plugins \<noteq> []"
    using assms by (auto simp: postcss_step_def plugins_def Let_def split: if_splits)
  obtain pres where 3: "postcss_process h plugins code1 opts (cleanUrl h ident) = Inr pres"
    using assms ne
    by (cases "postcss_process h plugins code1 opts (cleanUrl h ident)")
       (auto simp: postcss_step_def plugins_def opts_def Let_def)
  obtain deps' st2 where 4:
    "fold (record_message h cfg server ident code1) (pc_messages pres) (deps0, st1) = (deps', st2)"
    by (cases "fold (record_message h cfg server ident code1) (pc_messages pres) (deps0, st1)")
  have "c_ast r = Some pres" and "ds = deps'"
    using assms ne 3 4
    by (auto simp: postcss_step_def plugins_def [symmetric] opts_def [symmetric] Let_def)
  then show ?thesis
    using set_fold_record_message [of h cfg server ident code1 "pc_messages pres" deps0 st1] 4
    by auto
qed

text \<open>
  Claim C10 says that the dependency set returned by \<^verbatim>\<open>compileCSS\<close> never contains
  the module's own file. The filter of step 2 applies to the preprocessor's dependencies
  only; the files that the postcss run reports (a \<^verbatim>\<open>dependency\<close> message, or the
  expansion of a \<^verbatim>\<open>dir-dependency\<close> glob) are added as they are. With a postcss
  plugin of the user in the chain that reports the module's directory,
  \<^verbatim>\<open>/src/a.scss\<close> is in its own dependency set; the plugin chain of that run is the
  user's plugin followed by the url rewriter.
\<close>

theorem compileCSS_own_file_counterexample:
  "snd (compileCSS globbing_host plugin_config False ''/src/a.scss'' ''a{}'' fresh_cstate)
     = Inr globbed
   \<and> c_deps globbed = Some [''/src/a.scss'', ''/src/b.scss'']
   \<and> cleanUrl globbing_host ''/src/a.scss'' = ''/src/a.scss''
   \<and> postcss_plugins (Some \<lparr>pcfg_options = [], pcfg_plugins = Some [0]\<rparr>) False False ''/src/a.scss''
       = [UserPlugin 0, UrlRewritePlugin]
   \<and> snd (compileCSS globbing_host plain_config False ''/src/a.scss'' ''a{}'' fresh_cstate)
       = Inr (globbed\<lparr>c_ast := Some \<lparr>pc_css = ''a{}'', pc_map = empty_map, pc_messages = [],
                                         pc_json = None\<rparr>,
                       c_deps := Some []\<rparr>)"
  by code_simp

text \<open>
  Claim C10, as amended. No dependency reported by the preprocessor whose normalized path
  equals the normalized path of the module's own filename is added to the set: whenever
  the returned set holds a file with that normalized path, a message of the postcss run
  reported it.
\<close>

theorem compileCSS_own_file_origin:
  assumes res: "snd (compileCSS h cfg server ident code st) = Inr r"
      and deps: "c_deps r = Some ds"
      and mem: "d \<in> set ds"
      and own: "normalizePath h d = normalizePath h (cleanUrl h ident)"
  shows "\<exists>pres m. c_ast r = Some pres \<and> m \<in> set (pc_messages pres)
            \<and> d \<in> set (message_files h ident m)"
proof -
  obtain st1 x where 0: "resolvePostcssConfig h cfg st = (st1, x)"
    by (cases "resolvePostcssConfig h cfg st")
  obtain pc where 1: "x = Inr pc"
    using 0 res by (cases x) (auto simp: compileCSS_def Let_def)
  define lang where "lang = (case re_exec cssLangRE ident of Some (_, _, g) \<Rightarrow> g | None \<Rightarrow> None)"
  define isModule where "isModule = (\<not> css_modules_off cfg \<and> re_test cssModuleRE ident)"
  define fast where "fast = (lang = Some ''css'' \<and> pc = None \<and> \<not> isModule
       \<and> \<not> str_includes code ''@import'' \<and> \<not> (re_test cssUrlRE code \<or> re_test cssImageSetRE code))"
  have unf: "compileCSS h cfg server ident code st =
      (if fast then (st1, Inr \<lparr>c_code = code, c_map = MapNull, c_ast = None,
                                c_modules = None, c_deps = None\<rparr>)
       else (case preprocess h cfg lang ident code of
               Inl e \<Rightarrow> (st1, Inl e)
             | Inr pre \<Rightarrow> postcss_step h cfg server ident (str_includes code ''@import'')
                            isModule pc pre st1))"
    unfolding compileCSS_def Let_def 0 1 lang_def isModule_def fast_def by simp
  have nf: "\<not> fast" using unf res deps by (auto split: if_splits)
  obtain pre where 2: "preprocess h cfg lang ident code = Inr pre"
    using unf nf res by (cases "preprocess h cfg lang ident code") auto
  obtain code1 pm deps0 where 3: "pre = (code1, pm, deps0)" by (cases pre)
  have 4: "snd (postcss_step h cfg server ident (str_includes code ''@import'') isModule pc
                  (code1, pm, deps0) st1) = Inr r"
    using unf nf 2 3 res by simp
  obtain pres where 5: "c_ast r = Some pres"
    and 6: "set ds = set deps0 \<union> (\<Union>m\<in>set (pc_messages pres). set (message_files h ident m))"
    using postcss_step_deps [OF 4 deps] by blast
  have "d \<notin> set deps0" using preprocess_deps_not_self [OF 2 [unfolded 3]] own by blast
  then show ?thesis using mem 5 6 by auto
qed

theorem compileCSS_own_file_origin_witness:
  "\<exists>pres m. c_ast globbed = Some pres \<and> m \<in> set (pc_messages pres)
      \<and> ''/src/a.scss'' \<in> set (message_files globbing_host ''/src/a.scss'' m)"
proof -
  have 1: "snd (compileCSS globbing_host plugin_config False ''/src/a.scss'' ''a{}'' fresh_cstate)
             = Inr globbed"
    by code_simp
  have 2: "c_deps globbed = Some [''/src/a.scss'', ''/src/b.scss'']"
    by (simp add: globbed_def)
  have 3: "''/src/a.scss'' \<in> set [''/src/a.scss'', ''/src/b.scss'']"
    by simp
  have 4: "normalizePath globbing_host ''/src/a.scss''
             = normalizePath globbing_host (cleanUrl globbing_host ''/src/a.scss'')"
    by code_simp
  show ?thesis
    by (rule compileCSS_own_file_origin [OF 1 2 3 4])
qed

section \<open>Properties of the url rewriter\<close>

lemma slice_quoted: "slice_1_m1 (q # u @ [q']) = u"
  by (simp add: slice_1_m1_def butlast_append)

lemma doUrlReplace_quoted:
  assumes "q = CHR 0x22 \<or> q = CHR 0x27"
  shows "doUrlReplace h replacer (q # u @ [q]) matched =
        (if isExternalUrl h u \<or> isDataUrl h u \<or> starts_with u ''#'' then Inr matched
         else map_sum id (\<lambda>v. ''url('' @ [q] @ v @ [q] @ '')'') (replacer u))"
proof -
  have s: "slice_1_m1 (q # u @ [q]) = u" by (rule slice_quoted)
  show ?thesis
    using assms by (cases "replacer u") (auto simp: doUrlReplace_def s Let_def)
qed

lemma doUrlReplace_unquoted:
  assumes "c \<noteq> CHR 0x22" and "c \<noteq> CHR 0x27"
  shows "doUrlReplace h replacer (c # u) matched =
        (if isExternalUrl h (c # u) \<or> isDataUrl h (c # u) \<or> starts_with (c # u) ''#''
         then Inr matched
         else map_sum id (\<lambda>v. ''url('' @ v @ '')'') (replacer (c # u)))"
  using assms by (cases "replacer (c # u)") (auto simp: doUrlReplace_def Let_def)

text \<open>The replace loop of the concrete host, one round.\<close>

lemma scan_replace_Some:
  assumes "re_exec r s = Some (i, n, g)"
  shows "scan_replace (Suc k) r f s =
     (case f (take n (drop i s), case g of Some x \<Rightarrow> x | None \<Rightarrow> []) of
        Inl e \<Rightarrow> Inl e
      | Inr v \<Rightarrow>
          (case scan_replace k r f (drop (i + n) s) of
             Inl e \<Rightarrow> Inl e
           | Inr rest \<Rightarrow> Inr (take i s @ v @ rest)))"
  using assms by simp

lemma scan_replace_None:
  assumes "re_exec r s = None"
  shows "scan_replace k r f s = Inr s"
  using assms by (cases k) simp_all

subsection \<open>The shape of the values matched by the url pattern\<close>

lemma lit_post:
  assumes "rmatch (Lit l) k (d, s, g) = Some r"
  shows "\<exists>s'. s = l @ s' \<and> k (rev l @ d, s', g) = Some r"
proof -
  have c: "take (length l) s = l"
  proof (rule ccontr)
    assume "take (length l) s \<noteq> l"
    then have "rmatch (Lit l) k (d, s, g) = None" by simp
    then show False using assms by simp
  qed
  have "rmatch (Lit l) k (d, s, g) = k (rev l @ d, drop (length l) s, g)"
    using c by simp
  then have 1: "k (rev l @ d, drop (length l) s, g) = Some r" using assms by simp
  have "l @ drop (length l) s = take (length l) s @ drop (length l) s"
    by (simp only: c)
  then have 2: "s = l @ drop (length l) s" by simp
  show ?thesis using 1 2 by blast
qed

lemma cls_post:
  assumes "rmatch (Cls p) k (d, s, g) = Some r"
  shows "\<exists>c s'. s = c # s' \<and> p c \<and> k (c # d, s', g) = Some r"
proof (cases s)
  case Nil
  then show ?thesis using assms by simp
next
  case (Cons c cs)
  then have "p c" using assms by (simp split: if_splits)
  then show ?thesis using assms Cons by simp
qed

lemma alt_post:
  assumes "rmatch (Alt a b) k st = Some r"
  shows "rmatch a k st = Some r \<or> rmatch b k st = Some r"
proof (cases "rmatch a k st")
  case None
  then show ?thesis using assms by simp
next
  case (Some x)
  then show ?thesis using assms by simp
qed

lemma star_post:
  "star p k d g s = Some r \<Longrightarrow>
     \<exists>t s'. s = t @ s' \<and> (\<forall>c\<in>set t. p c) \<and> k (rev t @ d, s', g) = Some r"
proof (induction s arbitrary: d)
  case Nil
  then show ?case by auto
next
  case (Cons c cs)
  show ?case
  proof (cases "p c \<and> star p k (c # d) g cs = Some r")
    case True
    then obtain t s' where "cs = t @ s'" "\<forall>x\<in>set t. p x" "k (rev t @ c # d, s', g) = Some r"
      using Cons.IH [of "c # d"] by blast
    then have "c # cs = (c # t) @ s' \<and> (\<forall>x\<in>set (c # t). p x) \<and> k (rev (c # t) @ d, s', g) = Some r"
      using True by simp
    then show ?thesis by blast
  next
    case False
    have "k (d, c # cs, g) = Some r"
    proof (cases "p c")
      case True
      then have "star p k (c # d) g cs \<noteq> Some r" using False by simp
      then show ?thesis using Cons.prems True
        by (cases "star p k (c # d) g cs") simp_all
    next
      case np: False
      then show ?thesis using Cons.prems by simp
    qed
    then have "c # cs = [] @ (c # cs) \<and> (\<forall>x\<in>set []. p x) \<and> k (rev [] @ d, c # cs, g) = Some r"
      by simp
    then show ?thesis by blast
  qed
qed


lemma plus_post:
  assumes "rmatch (plus p) k (d, s, g) = Some r"
  shows "\<exists>t s'. t \<noteq> [] \<and> s = t @ s' \<and> (\<forall>c\<in>set t. p c) \<and> k (rev t @ d, s', g) = Some r"
proof -
  have "rmatch (Cls p) (rmatch (Star p) k) (d, s, g) = Some r"
    using assms by (simp add: plus_def)
  from cls_post [OF this]
  obtain c s1 where 1: "s = c # s1" "p c" "rmatch (Star p) k (c # d, s1, g) = Some r"
    by blast
  have "star p k (c # d) g s1 = Some r" using 1(3) by simp
  from star_post [OF this]
  obtain t s' where 2: "s1 = t @ s'" "\<forall>x\<in>set t. p x" "k (rev t @ c # d, s', g) = Some r"
    by blast
  have "c # t \<noteq> [] \<and> s = (c # t) @ s' \<and> (\<forall>x\<in>set (c # t). p x)
        \<and> k (rev (c # t) @ d, s', g) = Some r"
    using 1 2 by simp
  then show ?thesis by blast
qed

lemma seqs_Nil: "rmatch (seqs []) k (d, s, g) = k (d, s, g)"
  by (simp add: seqs_def)

lemma seqs_Cons: "rmatch (seqs (x # xs)) k = rmatch x (rmatch (seqs xs) k)"
  by (simp add: seqs_def)

lemma quoted_post:
  assumes "rmatch (seqs [Lit [q], plus (\<lambda>c. c \<noteq> q), Lit [q]]) k (d, s, g) = Some r"
  shows "\<exists>u s'. k (rev (q # u @ [q]) @ d, s', g) = Some r"
proof -
  have "rmatch (Lit [q]) (rmatch (plus (\<lambda>c. c \<noteq> q)) (rmatch (Lit [q]) (rmatch (seqs []) k)))
          (d, s, g) = Some r"
    using assms by (simp only: seqs_Cons)
  from lit_post [OF this]
  obtain s1 where 1: "rmatch (plus (\<lambda>c. c \<noteq> q)) (rmatch (Lit [q]) (rmatch (seqs []) k))
          (rev [q] @ d, s1, g) = Some r"
    by blast
  from plus_post [OF 1]
  obtain u s2 where 2: "rmatch (Lit [q]) (rmatch (seqs []) k) (rev u @ rev [q] @ d, s2, g) = Some r"
    by blast
  from lit_post [OF 2]
  obtain s3 where "rmatch (seqs []) k (rev [q] @ rev u @ rev [q] @ d, s3, g) = Some r"
    by blast
  then have "k (rev (q # u @ [q]) @ d, s3, g) = Some r"
    by (simp add: seqs_Nil)
  then show ?thesis by blast
qed

lemma unquoted_post:
  assumes "rmatch (plus (\<lambda>c. c \<noteq> CHR 0x27 \<and> c \<noteq> CHR 0x22 \<and> c \<noteq> CHR '')'')) k (d, s, g) = Some r"
  shows "\<exists>c u s'. c \<noteq> CHR 0x27 \<and> c \<noteq> CHR 0x22 \<and> k (rev (c # u) @ d, s', g) = Some r"
proof -
  from plus_post [OF assms]
  obtain t s' where t: "t \<noteq> []" "\<forall>c\<in>set t. c \<noteq> CHR 0x27 \<and> c \<noteq> CHR 0x22 \<and> c \<noteq> CHR '')''"
      "k (rev t @ d, s', g) = Some r"
    by blast
  obtain c u where cu: "t = c # u" using t(1) by (cases t) auto
  have "c \<noteq> CHR 0x27 \<and> c \<noteq> CHR 0x22" using t(2) cu by simp
  then show ?thesis using t(3) cu by blast
qed

text \<open>
  Every value that \<^const>\<open>cssUrlRE\<close> captures is quoted, with the same quote at both
  ends, or starts with a character that is no quote.
\<close>

lemma cssUrlRE_value:
  assumes "match_here cssUrlRE d s = Some (n, g)"
  shows "\<exists>v. g = Some v \<and>
           ((\<exists>q u. (q = CHR 0x22 \<or> q = CHR 0x27) \<and> v = q # u @ [q])
            \<or> (\<exists>c u. c \<noteq> CHR 0x22 \<and> c \<noteq> CHR 0x27 \<and> v = c # u))"
proof -
  define K0 :: "mstate \<Rightarrow> (nat \<times> string option) option"
    where "K0 = (\<lambda>(d', s', g). Some (length d' - length d, g))"
  define G where "G = alts [seqs [Lit [CHR 0x27], plus (\<lambda>c. c \<noteq> CHR 0x27), Lit [CHR 0x27]],
                seqs [Lit [CHR 0x22], plus (\<lambda>c. c \<noteq> CHR 0x22), Lit [CHR 0x22]],
                plus (\<lambda>c. c \<noteq> CHR 0x27 \<and> c \<noteq> CHR 0x22 \<and> c \<noteq> CHR '')'')]"
  define tail where "tail = rmatch (Star is_s) (rmatch (Lit '')'') (rmatch (seqs []) K0))"
  define body where "body = rmatch (Lit ''url('') (rmatch (Star is_s) (rmatch (Grp G) tail))"
  have m: "rmatch (Alt Bol (Behind (\<lambda>c. \<not> is_ident c))) body (d, s, None) = Some (n, g)"
    using assms
    by (simp only: match_here_def cssUrlRE_def seqs_Cons K0_def [symmetric] G_def [symmetric]
          tail_def [symmetric] body_def [symmetric])
  have b: "body (d, s, None) = Some (n, g)"
  proof -
    from alt_post [OF m]
    have "rmatch Bol body (d, s, None) = Some (n, g)
          \<or> rmatch (Behind (\<lambda>c. \<not> is_ident c)) body (d, s, None) = Some (n, g)" .
    then show ?thesis by (auto split: if_splits)
  qed
  from lit_post [OF b [unfolded body_def]]
  obtain s1 where "rmatch (Star is_s) (rmatch (Grp G) tail) (rev ''url('' @ d, s1, None) = Some (n, g)"
    by blast
  then have "star is_s (rmatch (Grp G) tail) (rev ''url('' @ d) None s1 = Some (n, g)" by simp
  from star_post [OF this]
  obtain t2 s2 where grp: "rmatch (Grp G) tail (rev t2 @ rev ''url('' @ d, s2, None) = Some (n, g)"
    by blast
  define d2 where "d2 = rev t2 @ rev ''url('' @ d"
  define K1 :: "mstate \<Rightarrow> (nat \<times> string option) option"
    where "K1 = (\<lambda>(d', s', g'). tail (d', s', Some (rev (take (length d' - length d2) d'))))"
  have g1: "rmatch G K1 (d2, s2, None) = Some (n, g)"
    using grp by (simp add: K1_def d2_def)
  have tail_g: "g = Some v" if tl: "tail (d', s', Some v) = Some (n, g)" for d' s' v
  proof -
    have "star is_s (rmatch (Lit '')'') (rmatch (seqs []) K0)) d' (Some v) s' = Some (n, g)"
      using tl by (simp add: tail_def)
    from star_post [OF this]
    obtain t3 s3 where "rmatch (Lit '')'') (rmatch (seqs []) K0) (rev t3 @ d', s3, Some v) = Some (n, g)"
      by blast
    from lit_post [OF this]
    obtain s4 where "rmatch (seqs []) K0 (rev '')'' @ rev t3 @ d', s4, Some v) = Some (n, g)"
      by blast
    then show "g = Some v" by (simp add: seqs_Nil K0_def)
  qed
  have k1: "g = Some v" if "K1 (rev v @ d2, s', g') = Some (n, g)" for v s' g'
  proof -
    have "tail (rev v @ d2, s', Some v) = Some (n, g)" using that by (simp add: K1_def)
    then show ?thesis by (rule tail_g)
  qed
  have alts3: "G = Alt (seqs [Lit [CHR 0x27], plus (\<lambda>c. c \<noteq> CHR 0x27), Lit [CHR 0x27]])
                (Alt (seqs [Lit [CHR 0x22], plus (\<lambda>c. c \<noteq> CHR 0x22), Lit [CHR 0x22]])
                     (plus (\<lambda>c. c \<noteq> CHR 0x27 \<and> c \<noteq> CHR 0x22 \<and> c \<noteq> CHR '')'')))"
    by (simp add: G_def)
  from alt_post [OF g1 [unfolded alts3]]
  consider (sq) "rmatch (seqs [Lit [CHR 0x27], plus (\<lambda>c. c \<noteq> CHR 0x27), Lit [CHR 0x27]]) K1
                   (d2, s2, None) = Some (n, g)"
    | (rest) "rmatch (Alt (seqs [Lit [CHR 0x22], plus (\<lambda>c. c \<noteq> CHR 0x22), Lit [CHR 0x22]])
                     (plus (\<lambda>c. c \<noteq> CHR 0x27 \<and> c \<noteq> CHR 0x22 \<and> c \<noteq> CHR '')''))) K1
                   (d2, s2, None) = Some (n, g)"
    by blast
  then show ?thesis
  proof cases
    case sq
    from quoted_post [OF sq]
    obtain u s' where "K1 (rev (CHR 0x27 # u @ [CHR 0x27]) @ d2, s', None) = Some (n, g)"
      by blast
    then have "g = Some (CHR 0x27 # u @ [CHR 0x27])" by (rule k1)
    then show ?thesis by blast
  next
    case rest
    from alt_post [OF rest]
    consider (dq) "rmatch (seqs [Lit [CHR 0x22], plus (\<lambda>c. c \<noteq> CHR 0x22), Lit [CHR 0x22]]) K1
                   (d2, s2, None) = Some (n, g)"
      | (un) "rmatch (plus (\<lambda>c. c \<noteq> CHR 0x27 \<and> c \<noteq> CHR 0x22 \<and> c \<noteq> CHR '')'')) K1
                   (d2, s2, None) = Some (n, g)"
      by blast
    then show ?thesis
    proof cases
      case dq
      from quoted_post [OF dq]
      obtain u s' where "K1 (rev (CHR 0x22 # u @ [CHR 0x22]) @ d2, s', None) = Some (n, g)"
        by blast
      then have "g = Some (CHR 0x22 # u @ [CHR 0x22])" by (rule k1)
      then show ?thesis by blast
    next
      case un
      from unquoted_post [OF un]
      obtain c u s' where c: "c \<noteq> CHR 0x27" "c \<noteq> CHR 0x22"
          "K1 (rev (c # u) @ d2, s', None) = Some (n, g)"
        by blast
      have "g = Some (c # u)" using c(3) by (rule k1)
      then show ?thesis using c by blast
    qed
  qed
qed

text \<open>
  Claim C6. The rewrite pass \<^verbatim>\<open>rewriteCssUrls\<close> hands the text, the expression
  \<^verbatim>\<open>cssUrlRE\<close> and a callback \<open>f\<close> to the replace loop; the callback is given the
  matched text and the value captured by group 1. Every value that the expression
  captures is quoted (\<open>q # u @ [q]\<close> with \<open>q\<close> a double or a single quote) or starts
  with a character that is no quote. For both kinds of value: when the unquoted url is
  external, a data url or starts with \<^verbatim>\<open>#\<close>, the callback returns the matched text
  unchanged; otherwise it returns \<^verbatim>\<open>url(...)\<close> around the replacer's result, wrapped
  in the quote \<open>q\<close> of the original value, or in nothing when there was none (and the
  replacer's error when it rejects).
\<close>

theorem rewriteCssUrls_quoting:
  "\<exists>f. rewriteCssUrls h css replacer = asyncReplace h css cssUrlRE f
     \<and> (\<forall>matched q u. q = CHR 0x22 \<or> q = CHR 0x27 \<longrightarrow>
           f (matched, q # u @ [q]) =
             (if isExternalUrl h u \<or> isDataUrl h u \<or> starts_with u ''#'' then Inr matched
              else map_sum id (\<lambda>v. ''url('' @ [q] @ v @ [q] @ '')'') (replacer u)))
     \<and> (\<forall>matched c u. c \<noteq> CHR 0x22 \<and> c \<noteq> CHR 0x27 \<longrightarrow>
           f (matched, c # u) =
             (if isExternalUrl h (c # u) \<or> isDataUrl h (c # u) \<or> starts_with (c # u) ''#''
              then Inr matched
              else map_sum id (\<lambda>v. ''url('' @ v @ '')'') (replacer (c # u))))
     \<and> (\<forall>d s n g. match_here cssUrlRE d s = Some (n, g) \<longrightarrow>
           (\<exists>v. g = Some v \<and>
              ((\<exists>q u. (q = CHR 0x22 \<or> q = CHR 0x27) \<and> v = q # u @ [q])
               \<or> (\<exists>c u. c \<noteq> CHR 0x22 \<and> c \<noteq> CHR 0x27 \<and> v = c # u))))"
proof -
  define f where "f = (\<lambda>(matched, rawUrl). doUrlReplace h replacer rawUrl matched)"
  have 1: "rewriteCssUrls h css replacer = asyncReplace h css cssUrlRE f"
    by (simp add: rewriteCssUrls_def f_def)
  have 2: "\<forall>matched q u. q = CHR 0x22 \<or> q = CHR 0x27 \<longrightarrow>
           f (matched, q # u @ [q]) =
             (if isExternalUrl h u \<or> isDataUrl h u \<or> starts_with u ''#'' then Inr matched
              else map_sum id (\<lambda>v. ''url('' @ [q] @ v @ [q] @ '')'') (replacer u))"
    using doUrlReplace_quoted [of _ h replacer] by (simp add: f_def)
  have 3: "\<forall>matched c u. c \<noteq> CHR 0x22 \<and> c \<noteq> CHR 0x27 \<longrightarrow>
           f (matched, c # u) =
             (if isExternalUrl h (c # u) \<or> isDataUrl h (c # u) \<or> starts_with (c # u) ''#''
              then Inr matched
              else map_sum id (\<lambda>v. ''url('' @ v @ '')'') (replacer (c # u)))"
    using doUrlReplace_unquoted [of _ h replacer] by (simp add: f_def)
  have 4: "\<forall>d s n g. match_here cssUrlRE d s = Some (n, g) \<longrightarrow>
           (\<exists>v. g = Some v \<and>
              ((\<exists>q u. (q = CHR 0x22 \<or> q = CHR 0x27) \<and> v = q # u @ [q])
               \<or> (\<exists>c u. c \<noteq> CHR 0x22 \<and> c \<noteq> CHR 0x27 \<and> v = c # u)))"
    using cssUrlRE_value by blast
  show ?thesis
    by (rule exI [of _ f]) (intro conjI 1 2 3 4)
qed

theorem rewriteCssUrls_quoting_witness:
  "rewriteCssUrls plain_host ''a{b:url('./logo.png')}'' assets_replacer
     = Inr ''a{b:url('/assets/logo.png')}''
   \<and> rewriteCssUrls plain_host ''a{b:url(#clip)}'' assets_replacer = Inr ''a{b:url(#clip)}''"
proof -
  have ar: "asyncReplace plain_host s r f = scan_replace (length s) r f s" for s r f
    by (simp add: plain_host_def)
  have e0: "re_exec cssUrlRE ''}'' = None" by code_simp
  have a: "rewriteCssUrls plain_host ''a{b:url('./logo.png')}'' assets_replacer
             = Inr ''a{b:url('/assets/logo.png')}''"
  proof -
    from rewriteCssUrls_quoting [of plain_host "''a{b:url('./logo.png')}''" assets_replacer]
    obtain f where all: "rewriteCssUrls plain_host ''a{b:url('./logo.png')}'' assets_replacer
          = asyncReplace plain_host ''a{b:url('./logo.png')}'' cssUrlRE f
     \<and> (\<forall>matched q u. q = CHR 0x22 \<or> q = CHR 0x27 \<longrightarrow>
           f (matched, q # u @ [q]) =
             (if isExternalUrl plain_host u \<or> isDataUrl plain_host u \<or> starts_with u ''#''
              then Inr matched
              else map_sum id (\<lambda>v. ''url('' @ [q] @ v @ [q] @ '')'') (assets_replacer u)))
     \<and> (\<forall>matched c u. c \<noteq> CHR 0x22 \<and> c \<noteq> CHR 0x27 \<longrightarrow>
           f (matched, c # u) =
             (if isExternalUrl plain_host (c # u) \<or> isDataUrl plain_host (c # u)
                 \<or> starts_with (c # u) ''#''
              then Inr matched
              else map_sum id (\<lambda>v. ''url('' @ v @ '')'') (assets_replacer (c # u))))
     \<and> (\<forall>d s n g. match_here cssUrlRE d s = Some (n, g) \<longrightarrow>
           (\<exists>v. g = Some v \<and>
              ((\<exists>q u. (q = CHR 0x22 \<or> q = CHR 0x27) \<and> v = q # u @ [q])
               \<or> (\<exists>c u. c \<noteq> CHR 0x22 \<and> c \<noteq> CHR 0x27 \<and> v = c # u))))"
      by (rule exE)
    note f = all [THEN conjunct1]
    note q = all [THEN conjunct2, THEN conjunct1]
    have e1: "re_exec cssUrlRE ''a{b:url('./logo.png')}''
                = Some (4, 17, Some (CHR 0x27 # ''./logo.png'' @ [CHR 0x27]))"
      by code_simp
    have v: "(if isExternalUrl plain_host ''./logo.png'' \<or> isDataUrl plain_host ''./logo.png''
                 \<or> starts_with ''./logo.png'' ''#''
              then Inr ''url('./logo.png')''
              else map_sum id (\<lambda>v. ''url('' @ [CHR 0x27] @ v @ [CHR 0x27] @ '')'')
                     (assets_replacer ''./logo.png''))
             = Inr ''url('/assets/logo.png')''"
      by code_simp
    have fv: "f (''url('./logo.png')'', CHR 0x27 # ''./logo.png'' @ [CHR 0x27])
                = Inr ''url('/assets/logo.png')''"
      using q [rule_format, of "CHR 0x27" "''url('./logo.png')''" "''./logo.png''"]
      unfolding v by simp
    have len: "length ''a{b:url('./logo.png')}'' = Suc 21" by simp
    have t: "take 17 (drop 4 ''a{b:url('./logo.png')}'') = ''url('./logo.png')''" by simp
    have d: "drop (4 + 17) ''a{b:url('./logo.png')}'' = ''}''" by simp
    have t4: "take 4 ''a{b:url('./logo.png')}'' = ''a{b:''" by simp
    have "scan_replace (Suc 21) cssUrlRE f ''a{b:url('./logo.png')}''
            = Inr ''a{b:url('/assets/logo.png')}''"
      unfolding scan_replace_Some [OF e1] t d t4 scan_replace_None [OF e0]
      using fv by simp
    then show ?thesis
      unfolding f ar len .
  qed
  have b: "rewriteCssUrls plain_host ''a{b:url(#clip)}'' assets_replacer = Inr ''a{b:url(#clip)}''"
  proof -
    from rewriteCssUrls_quoting [of plain_host "''a{b:url(#clip)}''" assets_replacer]
    obtain f where all: "rewriteCssUrls plain_host ''a{b:url(#clip)}'' assets_replacer
          = asyncReplace plain_host ''a{b:url(#clip)}'' cssUrlRE f
     \<and> (\<forall>matched q u. q = CHR 0x22 \<or> q = CHR 0x27 \<longrightarrow>
           f (matched, q # u @ [q]) =
             (if isExternalUrl plain_host u \<or> isDataUrl plain_host u \<or> starts_with u ''#''
              then Inr matched
              else map_sum id (\<lambda>v. ''url('' @ [q] @ v @ [q] @ '')'') (assets_replacer u)))
     \<and> (\<forall>matched c u. c \<noteq> CHR 0x22 \<and> c \<noteq> CHR 0x27 \<longrightarrow>
           f (matched, c # u) =
             (if isExternalUrl plain_host (c # u) \<or> isDataUrl plain_host (c # u)
                 \<or> starts_with (c # u) ''#''
              then Inr matched
              else map_sum id (\<lambda>v. ''url('' @ v @ '')'') (assets_replacer (c # u))))
     \<and> (\<forall>d s n g. match_here cssUrlRE d s = Some (n, g) \<longrightarrow>
           (\<exists>v. g = Some v \<and>
              ((\<exists>q u. (q = CHR 0x22 \<or> q = CHR 0x27) \<and> v = q # u @ [q])
               \<or> (\<exists>c u. c \<noteq> CHR 0x22 \<and> c \<noteq> CHR 0x27 \<and> v = c # u))))"
      by (rule exE)
    note f = all [THEN conjunct1]
    note u = all [THEN conjunct2, THEN conjunct2, THEN conjunct1]
    have e1: "re_exec cssUrlRE ''a{b:url(#clip)}'' = Some (4, 10, Some ''#clip'')"
      by code_simp
    have fv: "f (''url(#clip)'', ''#clip'') = Inr ''url(#clip)''"
      using u [rule_format, of "CHR ''#''" "''url(#clip)''" "''clip''"]
      by (simp add: starts_with_def)
    have len: "length ''a{b:url(#clip)}'' = Suc 14" by simp
    have t: "take 10 (drop 4 ''a{b:url(#clip)}'') = ''url(#clip)''" by simp
    have d: "drop (4 + 10) ''a{b:url(#clip)}'' = ''}''" by simp
    have t4: "take 4 ''a{b:url(#clip)}'' = ''a{b:''" by simp
    have "scan_replace (Suc 14) cssUrlRE f ''a{b:url(#clip)}'' = Inr ''a{b:url(#clip)}''"
      unfolding scan_replace_Some [OF e1] t d t4 scan_replace_None [OF e0]
      using fv by simp
    then show ?thesis
      unfolding f ar len .
  qed
  show ?thesis using a b by simp
qed

text \<open>
  The examples of the specification, through \<^const>\<open>rewriteCssUrls\<close> on the concrete
  host: a relative url is rewritten under the base path, a data url, a fragment and an
  external url are left as they are.
\<close>

lemma rewrite_examples:
  "rewriteCssUrls plain_host ''a{background:url(./logo.png)}'' assets_replacer
     = Inr ''a{background:url(/assets/logo.png)}''"
  "rewriteCssUrls plain_host ''a{background:url(data:image/png;base64,AAAA)}'' assets_replacer
     = Inr ''a{background:url(data:image/png;base64,AAAA)}''"
  "rewriteCssUrls plain_host ''a{background:url(#clip)}'' assets_replacer
     = Inr ''a{background:url(#clip)}''"
  "rewriteCssUrls plain_host ''a{background:url(https://example.com/x.png)}'' assets_replacer
     = Inr ''a{background:url(https://example.com/x.png)}''"
  by code_simp+

section \<open>Properties of the engine loader\<close>





section \<open>Properties of the transform hook\<close>

lemma moduleCache_dev_update: "moduleCache (dev_update h ident ssr r st) = moduleCache st"
  by (simp add: dev_update_def Let_def split: option.splits)

lemma transform_moduleCache:
  assumes "compileCSS h cfg server ident raw (compiler st) = (cs, Inr r)"
      and "isCSSRequest ident" and "\<not> re_test commonjsProxyRE ident"
  shows "moduleCache (fst (transform h cfg server raw ident ssr st)) =
           (case c_modules r of Some m \<Rightarrow> AList.update ident m (moduleCache st)
                              | None \<Rightarrow> moduleCache st)"
    and "snd (transform h cfg server raw ident ssr st) = Inr (Some (c_code r, c_map r))"
  using assms
  by (auto simp: transform_def Let_def moduleCache_dev_update split: option.splits)

lemma transform_moduleCache_other:
  "moduleCache (fst (transform h cfg server raw ident ssr st)) = moduleCache st
   \<or> (\<exists>m. moduleCache (fst (transform h cfg server raw ident ssr st))
            = AList.update ident m (moduleCache st))"
  by (auto simp: transform_def Let_def moduleCache_dev_update split: option.splits sum.splits prod.splits)

text \<open>
  Claim C9 says that compiling the same module id twice in one build session produces
  the cached record of the first compilation. \<^verbatim>\<open>transform\<close> calls \<^verbatim>\<open>compileCSS\<close>
  on every invocation and never reads a cached record; the module cache holds the
  scoped-class export map only, and a second compilation overwrites it.
\<close>

theorem transform_twice_counterexample:
  "map_sum id (map_option fst) (snd first_run) = Inr (Some ''.a{}'')
   \<and> moduleCache (fst first_run) = [(''/src/b.module.css'', [(''title'', ''.c{}'')]),
                                    (''/src/a.module.css'', [(''title'', ''.a{}'')])]
   \<and> map_sum id (map_option fst) (snd second_run) = Inr (Some ''.b{}'')
   \<and> moduleCache (fst second_run) = [(''/src/b.module.css'', [(''title'', ''.c{}'')]),
                                     (''/src/a.module.css'', [(''title'', ''.b{}'')])]"
  by code_simp

text \<open>
  Claim C9, as amended. Every transform of a stylesheet module compiles the source it is
  given: its result is the code and map of that compilation, and the cache entry of the
  module id afterwards is the export map of that compilation when it produced one (the
  earlier entry otherwise). Writing the entry of one module id never changes the entry
  of another id.
\<close>

theorem transform_cache:
  "(\<forall>other. other \<noteq> ident \<longrightarrow>
      map_of (moduleCache (fst (transform h cfg server raw ident ssr st))) other
        = map_of (moduleCache st) other)
   \<and> (isCSSRequest ident \<and> \<not> re_test commonjsProxyRE ident
        \<and> snd (compileCSS h cfg server ident raw (compiler st)) = Inr r \<longrightarrow>
      snd (transform h cfg server raw ident ssr st) = Inr (Some (c_code r, c_map r))
      \<and> map_of (moduleCache (fst (transform h cfg server raw ident ssr st))) ident
          = (case c_modules r of Some m \<Rightarrow> Some m | None \<Rightarrow> map_of (moduleCache st) ident))"
proof (intro conjI allI impI)
  fix other assume "other \<noteq> ident"
  then show "map_of (moduleCache (fst (transform h cfg server raw ident ssr st))) other
        = map_of (moduleCache st) other"
    using transform_moduleCache_other [of h cfg server raw ident ssr st]
    by (auto simp: update_conv')
next
  assume a: "isCSSRequest ident \<and> \<not> re_test commonjsProxyRE ident
        \<and> snd (compileCSS h cfg server ident raw (compiler st)) = Inr r"
  then obtain cs where c: "compileCSS h cfg server ident raw (compiler st) = (cs, Inr r)"
    by (cases "compileCSS h cfg server ident raw (compiler st)") auto
  show "snd (transform h cfg server raw ident ssr st) = Inr (Some (c_code r, c_map r))"
    using transform_moduleCache(2) [OF c] a by blast
  show "map_of (moduleCache (fst (transform h cfg server raw ident ssr st))) ident
          = (case c_modules r of Some m \<Rightarrow> Some m | None \<Rightarrow> map_of (moduleCache st) ident)"
    using transform_moduleCache(1) [OF c, of ssr] a
    by (auto simp: update_conv' split: option.splits)
qed


theorem transform_cache_witness:
  "map_of (moduleCache (fst second_run)) ''/src/b.module.css''
     = map_of (moduleCache (fst first_run)) ''/src/b.module.css''
   \<and> map_of (moduleCache (fst first_run)) ''/src/b.module.css'' = Some [(''title'', ''.c{}'')]
   \<and> snd second_run = Inr (Some (''.b{}'', MapOf (empty_map\<lparr>map_file := Some ''/src/a.module.css''\<rparr>)))
   \<and> map_of (moduleCache (fst second_run)) ''/src/a.module.css'' = Some [(''title'', ''.b{}'')]"
proof -
  define r where "r = \<lparr>c_code = ''.b{}'',
     c_map = MapOf (empty_map\<lparr>map_file := Some ''/src/a.module.css''\<rparr>),
     c_ast = Some \<lparr>pc_css = ''.b{}'', pc_map = empty_map, pc_messages = [],
                   pc_json = Some [(''title'', ''.b{}'')]\<rparr>,
     c_modules = Some [(''title'', ''.b{}'')], c_deps = Some []\<rparr>"
  have h: "isCSSRequest ''/src/a.module.css'' \<and> \<not> re_test commonjsProxyRE ''/src/a.module.css''
        \<and> snd (compileCSS modules_host plain_config False ''/src/a.module.css'' ''.b{}''
                 (compiler (fst first_run))) = Inr r"
    unfolding r_def by code_simp
  note t = transform_cache [where h = modules_host and cfg = plain_config and server = False
      and raw = "''.b{}''" and ident = "''/src/a.module.css''" and ssr = False
      and st = "fst first_run" and r = r, folded second_run_def]
  have 1: "\<forall>other. other \<noteq> ''/src/a.module.css'' \<longrightarrow>
      map_of (moduleCache (fst second_run)) other = map_of (moduleCache (fst first_run)) other"
    using t by blast
  have 2: "snd second_run = Inr (Some (c_code r, c_map r))
      \<and> map_of (moduleCache (fst second_run)) ''/src/a.module.css''
          = (case c_modules r of Some m \<Rightarrow> Some m
             | None \<Rightarrow> map_of (moduleCache (fst first_run)) ''/src/a.module.css'')"
    using t h by blast
  have 3: "map_of (moduleCache (fst first_run)) ''/src/b.module.css'' = Some [(''title'', ''.c{}'')]"
    by code_simp
  show ?thesis using 1 2 3 by (simp add: r_def)
qed

section \<open>Properties of the hoist pass\<close>

lemma ids_Nil [simp]: "ids [] = {}"
  by (simp add: ids_def)

lemma ids_Node [simp]: "ids (Node j k cs # ns) = insert j (ids cs \<union> ids ns)"
  by (auto simp: ids_def)

lemma walk_append: "walk (xs @ ys) = walk xs @ walk ys"
  by (induction xs rule: walk.induct) auto

lemma ids_append [simp]: "ids (xs @ ys) = ids xs \<union> ids ys"
  by (auto simp: ids_def walk_append)

lemma distinct_walk_Node:
  "distinct (map node_id (walk (Node j k cs # ns))) \<longleftrightarrow>
     j \<notin> ids cs \<and> j \<notin> ids ns \<and> ids cs \<inter> ids ns = {}
     \<and> distinct (map node_id (walk cs)) \<and> distinct (map node_id (walk ns))"
  by (auto simp: ids_def)

lemma find_id_absent: "i \<notin> ids ns \<Longrightarrow> find_id i ns = None"
  by (induction i ns rule: find_id.induct) auto

lemma remove_id_absent: "i \<notin> ids ns \<Longrightarrow> remove_id i ns = ns"
  by (induction i ns rule: remove_id.induct) auto

lemma find_id_append: "i \<notin> ids xs \<Longrightarrow> find_id i (xs @ ys) = find_id i ys"
  by (induction i xs rule: find_id.induct) (auto simp: find_id_absent)

lemma remove_id_append: "remove_id i (xs @ ys) = remove_id i xs @ remove_id i ys"
  by (induction i xs rule: remove_id.induct) auto

lemma find_id_plug: "i \<notin> ctx_ids c \<Longrightarrow> find_id i (plug c ns) = find_id i ns"
proof (induction c arbitrary: ns)
  case Top
  then show ?case by simp
next
  case (Pre c n)
  then have "find_id i (plug c (n # ns)) = find_id i (n # ns)" by simp
  also have "\<dots> = find_id i ([n] @ ns)" by simp
  also have "\<dots> = find_id i ns" using Pre.prems by (intro find_id_append) simp
  finally show ?case by simp
next
  case (Inside c j k right)
  then have "find_id i (plug c (Node j k ns # right)) = find_id i (Node j k ns # right)" by simp
  also have "\<dots> = find_id i ns"
    using Inside.prems by (auto simp: find_id_absent split: option.splits)
  finally show ?case by simp
qed

lemma remove_id_plug: "i \<notin> ctx_ids c \<Longrightarrow> remove_id i (plug c ns) = plug c (remove_id i ns)"
proof (induction c arbitrary: ns)
  case Top
  then show ?case by simp
next
  case (Pre c n)
  then have "remove_id i (plug c (n # ns)) = plug c (remove_id i ([n] @ ns))" by simp
  also have "remove_id i ([n] @ ns) = n # remove_id i ns"
    using Pre.prems by (simp only: remove_id_append) (simp add: remove_id_absent)
  finally show ?case by simp
next
  case (Inside c j k right)
  then have "remove_id i (plug c (Node j k ns # right)) = plug c (remove_id i (Node j k ns # right))"
    by simp
  also have "remove_id i (Node j k ns # right) = Node j k (remove_id i ns) # right"
    using Inside.prems by (simp add: remove_id_absent)
  finally show ?case by simp
qed

lemma prepend_plug:
  assumes "i \<notin> ids front" and "i \<notin> ctx_ids c"
  shows "prepend (front @ plug c ns) i =
           (case find_id i ns of Some n \<Rightarrow> n # front @ plug c (remove_id i ns)
                               | None \<Rightarrow> front @ plug c ns)"
  using assms
  by (simp add: prepend_def find_id_append find_id_plug remove_id_append remove_id_absent
        remove_id_plug split: option.splits)

lemma ids_strip: "ids (strip ns) \<subseteq> ids ns"
  by (induction ns rule: strip.induct) auto

lemma ids_collect: "ids (collect ns) \<subseteq> ids ns"
proof (induction ns rule: collect.induct)
  case 1
  then show ?case by simp
next
  case (2 j k cs ns)
  have "ids (collect (Node j k cs # ns)) \<subseteq> {j} \<union> ids (strip cs) \<union> ids (collect cs) \<union> ids (collect ns)"
    by auto
  then show ?case using 2 ids_strip [of cs] by auto
qed

lemma imp_ids_Cons:
  "imp_ids (Node j k cs # ns) = (if is_import (Node j k cs) then [j] else []) @ imp_ids cs @ imp_ids ns"
  by (simp add: imp_ids_def)

lemma hoist_context:
  "distinct (map node_id (walk ns)) \<Longrightarrow> ids front \<inter> ids ns = {} \<Longrightarrow> ctx_ids c \<inter> ids ns = {} \<Longrightarrow>
   foldr (\<lambda>i r. prepend r i) (imp_ids ns) (front @ plug c ns)
     = collect ns @ front @ plug c (strip ns)"
proof (induction ns arbitrary: front c rule: collect.induct)
  case 1
  then show ?case by (simp add: imp_ids_def)
next
  case (2 j k cs ns)
  let ?n = "Node j k cs"
  have dist: "distinct (map node_id (walk cs))" "distinct (map node_id (walk ns))"
    and jcs: "j \<notin> ids cs" and jns: "j \<notin> ids ns" and csns: "ids cs \<inter> ids ns = {}"
    using "2.prems"(1) unfolding distinct_walk_Node by blast+
  have fr: "j \<notin> ids front" "ids front \<inter> ids cs = {}" "ids front \<inter> ids ns = {}"
    using "2.prems"(2) by auto
  have cx: "j \<notin> ctx_ids c" "ctx_ids c \<inter> ids cs = {}" "ctx_ids c \<inter> ids ns = {}"
    using "2.prems"(3) by auto
  \<comment> \<open>the imports of the later siblings\<close>
  have s1: "foldr (\<lambda>i r. prepend r i) (imp_ids ns) (front @ plug c (?n # ns))
              = collect ns @ front @ plug c (?n # strip ns)"
  proof -
    have "ctx_ids (Pre c ?n) \<inter> ids ns = {}" using cx jns csns by auto
    from "2.IH"(2) [OF dist(2) fr(3) this] show ?thesis by simp
  qed
  \<comment> \<open>the imports among the children\<close>
  have s2: "foldr (\<lambda>i r. prepend r i) (imp_ids cs) (collect ns @ front @ plug c (?n # strip ns))
              = collect cs @ collect ns @ front @ plug c (Node j k (strip cs) # strip ns)"
  proof -
    have a: "ids (collect ns @ front) \<inter> ids cs = {}"
      using ids_collect [of ns] fr csns by auto
    have b: "ctx_ids (Inside c j k (strip ns)) \<inter> ids cs = {}"
      using cx jcs csns ids_strip [of ns] by auto
    from "2.IH"(1) [OF dist(1) a b] show ?thesis by simp
  qed
  show ?case
  proof (cases "is_import ?n")
    case False
    then show ?thesis
      using s1 s2 by (simp add: imp_ids_Cons)
  next
    case True
    have nf: "j \<notin> ids (collect cs @ collect ns @ front)"
      using ids_collect [of cs] ids_collect [of ns] jcs jns fr by auto
    have "prepend ((collect cs @ collect ns @ front) @ plug c (Node j k (strip cs) # strip ns)) j
            = Node j k (strip cs) # (collect cs @ collect ns @ front) @ plug c (strip ns)"
    proof -
      have "j \<notin> ids (strip ns)" using jns ids_strip [of ns] by blast
      then have "remove_id j (strip ns) = strip ns" by (rule remove_id_absent)
      then show ?thesis by (subst prepend_plug [OF nf cx(1)]) simp
    qed
    then show ?thesis
      using True s1 s2 by (simp add: imp_ids_Cons)
  qed
qed

lemma fold_unshift:
  "fold (\<lambda>rule imports. if is_import rule then node_id rule # imports else imports) ws acc
     = rev (map node_id (filter is_import ws)) @ acc"
  by (induction ws arbitrary: acc) auto

lemma hoist_eq:
  assumes "distinct (map node_id (walk root))"
  shows "AtImportHoistPlugin root = collect root @ strip root"
proof -
  have "AtImportHoistPlugin root = fold (\<lambda>i r. prepend r i) (rev (imp_ids root)) root"
    by (simp add: AtImportHoistPlugin_def fold_unshift imp_ids_def)
  also have "\<dots> = foldr (\<lambda>i r. prepend r i) (imp_ids root) ([] @ plug Top root)"
    by (simp add: foldr_conv_fold)
  also have "\<dots> = collect root @ [] @ plug Top (strip root)"
    using assms by (intro hoist_context) auto
  finally show ?thesis by simp
qed

lemma strip_no_import: "list_all (\<lambda>n. \<not> is_import n) (walk (strip ns))"
  by (induction ns rule: strip.induct) (auto simp: list_all_iff)

lemma collect_ids: "map node_id (collect ns) = imp_ids ns"
  by (induction ns rule: collect.induct) (simp_all add: imp_ids_Cons, simp add: imp_ids_def)

lemma collect_imports: "list_all is_import (collect ns)"
  by (induction ns rule: collect.induct) auto


lemma collect_kinds: "map node_kind (collect ns) = map node_kind (filter is_import (walk ns))"
  by (induction ns rule: collect.induct) auto

lemma collect_children:
  "list_all (\<lambda>n. list_all (\<lambda>m. \<not> is_import m) (walk (children n))) (collect ns)"
proof (induction ns rule: collect.induct)
  case 1
  then show ?case by simp
next
  case (2 j k cs ns)
  then show ?case using strip_no_import [of cs] by simp
qed

lemma is_import_iff: "is_import n \<longleftrightarrow> (\<exists>params. node_kind n = AtRule ''import'' params)"
  by (cases n) (auto split: kind.splits)

text \<open>
  On a tree with nested rules: the import inside the media query is moved to the top of
  the root as well.
\<close>

lemma hoist_sample_tree:
  "AtImportHoistPlugin sample_tree = hoisted_tree"
proof -
  have d: "distinct (map node_id (walk sample_tree))" by (simp add: sample_tree_def)
  have c: "collect sample_tree @ strip sample_tree = hoisted_tree"
    by (simp add: sample_tree_def hoisted_tree_def)
  show ?thesis using hoist_eq [OF d] c by simp
qed

lemma hoistAtImports_error:
  "postcss_parse B css = Inl e \<Longrightarrow> hoistAtImports B css = Inl e"
  by (simp add: hoistAtImports_def)

text \<open>
  Claim C5 says that in the hoisted text every \<^verbatim>\<open>@import\<close> rule stands before every
  other rule. The plugin takes the at-rules whose name is exactly \<^verbatim>\<open>import\<close>
  (\<^verbatim>\<open>rule.name === 'import'\<close>), and postcss keeps a name as it is written; the names
  of at-rules do not depend on case in CSS, so \<^verbatim>\<open>@IMPORT\<close> is an import rule that
  the plugin leaves where it is, behind the rule before it.
\<close>

theorem hoistAtImports_counterexample:
  "postcss_parse flat_rollup ''a{}@IMPORT url(x.css);''
     = Inr [Node 0 (Rule ''a'') [], Node 1 (AtRule ''IMPORT'' ''url(x.css)'') []]
   \<and> hoistAtImports flat_rollup ''a{}@IMPORT url(x.css);'' = Inr ''a{}@IMPORT url(x.css);''"
proof -
  have 1: "postcss_parse flat_rollup ''a{}@IMPORT url(x.css);''
     = Inr [Node 0 (Rule ''a'') [], Node 1 (AtRule ''IMPORT'' ''url(x.css)'') []]"
    by code_simp
  have 2: "hoistAtImports flat_rollup ''a{}@IMPORT url(x.css);'' = Inr ''a{}@IMPORT url(x.css);''"
    by code_simp
  show ?thesis using 1 2 by simp
qed

text \<open>
  Claim C5, as amended. \<^verbatim>\<open>hoistAtImports\<close> parses the text, and what it returns is the
  printed form of the tree whose root holds the import rules followed by the other
  rules, \<^term>\<open>collect root @ strip root\<close>, where an import rule is an at-rule whose name
  is exactly \<^verbatim>\<open>import\<close>: every node of \<^term>\<open>collect root\<close> is an import rule with no
  import rule below it, no node at any depth of \<^term>\<open>strip root\<close> is an import rule, and
  the import rules stand in the order in which they occur in the input (the same nodes,
  with the same names and parameters, in document order). The node identities of a
  parsed tree are distinct.
\<close>

theorem hoistAtImports_imports_first:
  assumes "postcss_parse B css = Inr root" and "distinct (map node_id (walk root))"
  shows "hoistAtImports B css = Inr (postcss_stringify B (collect root @ strip root))
         \<and> list_all is_import (collect root)
         \<and> list_all (\<lambda>n. list_all (\<lambda>m. \<not> is_import m) (walk (children n))) (collect root)
         \<and> list_all (\<lambda>n. \<not> is_import n) (walk (strip root))
         \<and> map node_id (collect root) = map node_id (filter is_import (walk root))
         \<and> map node_kind (collect root) = map node_kind (filter is_import (walk root))
         \<and> (\<forall>n. is_import n \<longleftrightarrow> (\<exists>params. node_kind n = AtRule ''import'' params))"
proof -
  have 1: "hoistAtImports B css = Inr (postcss_stringify B (collect root @ strip root))"
    using assms(1) hoist_eq [OF assms(2)] by (simp add: hoistAtImports_def)
  have 2: "map node_id (collect root) = map node_id (filter is_import (walk root))"
    using collect_ids [of root] by (simp add: imp_ids_def)
  show ?thesis
    using 1 2 collect_imports [of root] collect_children [of root]
      strip_no_import [of root] collect_kinds [of root] is_import_iff
    by blast
qed

theorem hoistAtImports_imports_first_witness:
  "hoistAtImports flat_rollup ''a{color:red}@import url(x.css);b{}@import url(y.css);''
     = Inr ''@import url(x.css);@import url(y.css);a{color:red}b{}''"
proof -
  define root where "root =
     [Node 0 (Rule ''a'') [Node 1 (Decl ''color'' ''red'') []],
      Node 2 (AtRule ''import'' ''url(x.css)'') [],
      Node 3 (Rule ''b'') [],
      Node 4 (AtRule ''import'' ''url(y.css)'') []]"
  have p: "postcss_parse flat_rollup ''a{color:red}@import url(x.css);b{}@import url(y.css);''
             = Inr root"
    unfolding root_def by code_simp
  have d: "distinct (map node_id (walk root))" by (simp add: root_def)
  have c: "collect root @ strip root =
     [Node 2 (AtRule ''import'' ''url(x.css)'') [],
      Node 4 (AtRule ''import'' ''url(y.css)'') [],
      Node 0 (Rule ''a'') [Node 1 (Decl ''color'' ''red'') []],
      Node 3 (Rule ''b'') []]"
    by (simp add: root_def)
  have s: "postcss_stringify flat_rollup
     [Node 2 (AtRule ''import'' ''url(x.css)'') [],
      Node 4 (AtRule ''import'' ''url(y.css)'') [],
      Node 0 (Rule ''a'') [Node 1 (Decl ''color'' ''red'') []],
      Node 3 (Rule ''b'') []]
     = ''@import url(x.css);@import url(y.css);a{color:red}b{}''"
    by code_simp
  have "hoistAtImports flat_rollup ''a{color:red}@import url(x.css);b{}@import url(y.css);''
          = Inr (postcss_stringify flat_rollup (collect root @ strip root))"
    using hoistAtImports_imports_first [OF p d] by blast
  then show ?thesis unfolding c s .
qed

section \<open>Properties of the aggregation stage\<close>

lemma chunk_css_fold:
  "fold (\<lambda>ident (chunkCSS, isPureCssChunk).
             (case map_of (styles st) ident of Some css \<Rightarrow> chunkCSS @ css | None \<Rightarrow> chunkCSS,
              if \<not> isCSSRequest ident \<or> re_test cssModuleRE ident \<or> re_test commonjsProxyRE ident
              then False else isPureCssChunk)) xs (acc, p)
   = (acc @ concat (map (\<lambda>i. case map_of (styles st) i of Some css \<Rightarrow> css | None \<Rightarrow> []) xs),
      p \<and> list_all plain_css_id xs)"
  by (induction xs arbitrary: acc p) (auto simp: plain_css_id_def split: option.splits)

lemma chunk_css_eq:
  "chunk_css st xs =
     (concat (map (\<lambda>i. case map_of (styles st) i of Some css \<Rightarrow> css | None \<Rightarrow> []) xs),
      list_all plain_css_id xs)"
  unfolding chunk_css_def chunk_css_fold by simp

lemma pure_minifyCSS: "pureCssChunks (fst (minifyCSS B cfg css st)) = pureCssChunks st"
  by (simp add: minifyCSS_def split: sum.splits prod.splits)

lemma pure_processChunkCSS:
  "pureCssChunks (fst (snd (processChunkCSS h B cfg css inl mini (chunk, st)))) = pureCssChunks st"
proof -
  obtain css1 assets where r: "replace_asset_urls h B cfg inl css (importedAssets chunk) = (css1, assets)"
    by (cases "replace_asset_urls h B cfg inl css (importedAssets chunk)")
  show ?thesis
  proof (cases "if str_includes css1 ''@import'' then hoistAtImports B css1 else Inr css1")
    case (Inl e)
    then show ?thesis by (simp add: processChunkCSS_def r Let_def)
  next
    case (Inr css2)
    obtain st1 res where m: "minifyCSS B cfg css2 st = (st1, res)"
      by (cases "minifyCSS B cfg css2 st")
    have "pureCssChunks st1 = pureCssChunks st"
      using pure_minifyCSS [of B cfg css2 st] m by simp
    then show ?thesis using Inr m by (simp add: processChunkCSS_def r Let_def)
  qed
qed

text \<open>
  Claim C3 says that a chunk is flagged exactly when every module id of the chunk is a
  stylesheet module. The loop of \<^verbatim>\<open>renderChunk\<close> also clears the flag for a CSS
  module (\<^verbatim>\<open>cssModuleRE\<close>) and for a commonjs proxy, the function returns before the
  registry is touched when the chunk has no css, and the registry is written under
  \<^verbatim>\<open>cssCodeSplit\<close> only. A chunk whose only module is a CSS module is a chunk of
  stylesheet modules that is not flagged.
\<close>

theorem renderChunk_flags_counterexample:
  "list_all isCSSRequest (chunk_modules module_chunk)
   \<and> fst (chunk_css styled (chunk_modules module_chunk)) = ''.m{}''
   \<and> build_cssCodeSplit split_config
   \<and> pureCssChunks (fst (renderChunk plain_host plain_rollup split_config [] module_chunk
                           es_output styled)) = []"
  by code_simp

text \<open>
  Claim C3, as amended. \<^verbatim>\<open>renderChunk\<close> adds the file name of the chunk to the
  registry exactly when code splitting is enabled, the css accumulated for the chunk is
  not empty, and every module id of the chunk is a stylesheet request that is neither a
  CSS module nor a commonjs proxy; otherwise the registry is unchanged.
\<close>

theorem renderChunk_flags:
  "pureCssChunks (fst (renderChunk h B cfg code chunk opts st)) =
     (if build_cssCodeSplit cfg
         \<and> concat (map (\<lambda>i. case map_of (styles st) i of Some css \<Rightarrow> css | None \<Rightarrow> [])
                     (chunk_modules chunk)) \<noteq> []
         \<and> list_all plain_css_id (chunk_modules chunk)
      then set_add (pureCssChunks st) (fileName chunk) else pureCssChunks st)"
proof -
  define css where "css = concat (map (\<lambda>i. case map_of (styles st) i of Some css \<Rightarrow> css | None \<Rightarrow> [])
                     (chunk_modules chunk))"
  define p where "p = list_all plain_css_id (chunk_modules chunk)"
  define st1 where "st1 = (if p then st\<lparr>pureCssChunks := set_add (pureCssChunks st) (fileName chunk)\<rparr> else st)"
  have cc: "chunk_css st (chunk_modules chunk) = (css, p)"
    by (simp add: chunk_css_eq css_def p_def)
  have st1: "pureCssChunks st1 = (if p then set_add (pureCssChunks st) (fileName chunk) else pureCssChunks st)"
    by (simp add: st1_def)
  have a: "pureCssChunks (fst (snd (processChunkCSS h B cfg css inl mini (chunk, s)))) = pureCssChunks s"
    for inl mini s by (rule pure_processChunkCSS)
  show ?thesis
  proof (cases "css = []")
    case True
    then show ?thesis using cc by (simp add: renderChunk_def css_def [symmetric])
  next
    case False
    show ?thesis
    proof (cases "build_cssCodeSplit cfg")
      case True
      have "pureCssChunks (fst (renderChunk h B cfg code chunk opts st)) = pureCssChunks st1"
        using cc False True a [of False True st1] a [of True True st1]
        by (auto simp: renderChunk_def Let_def st1_def [symmetric] split: prod.splits sum.splits)
      then show ?thesis using st1 False True by (simp add: css_def [symmetric] p_def [symmetric])
    next
      case nosplit: False
      have "pureCssChunks (fst (renderChunk h B cfg code chunk opts st)) = pureCssChunks st"
        using cc False nosplit a [of False False st]
        by (auto simp: renderChunk_def Let_def split: prod.splits sum.splits)
      then show ?thesis using nosplit by simp
    qed
  qed
qed


theorem renderChunk_flags_witness:
  "pureCssChunks (fst (renderChunk plain_host plain_rollup split_config [] css_chunk es_output styled))
     = [''assets/a.js'']"
proof -
  have "(if build_cssCodeSplit split_config
         \<and> concat (map (\<lambda>i. case map_of (styles styled) i of Some css \<Rightarrow> css | None \<Rightarrow> [])
                     (chunk_modules css_chunk)) \<noteq> []
         \<and> list_all plain_css_id (chunk_modules css_chunk)
      then set_add (pureCssChunks styled) (fileName css_chunk) else pureCssChunks styled)
      = [''assets/a.js'']"
    by code_simp
  then show ?thesis
    using renderChunk_flags [of plain_host plain_rollup split_config "[]" css_chunk es_output styled]
    by simp
qed

section \<open>Properties of the finalize pass\<close>

lemma generateBundle_skip:
  "skip_asset_emit opts \<Longrightarrow> generateBundle B cfg opts b st = Inr (st, b)"
  by (simp add: generateBundle_def)

lemma minifyCSS_fields:
  assumes "minifyCSS B cfg css st = (st1, Inr code)"
  shows "emitted st1 = emitted st" "hasEmitted st1 = hasEmitted st"
    "outputToExtractedCSSMap st1 = outputToExtractedCSSMap st"
    "code = final_css B cfg css \<or> \<not> build_minify cfg"
  using assms
  by (auto simp: minifyCSS_def final_css_def split: sum.splits prod.splits if_splits)

lemma generateBundle_emit:
  assumes "generateBundle B cfg opts b st = Inr (st', b')"
  shows "outputToExtractedCSSMap st' = outputToExtractedCSSMap st
       \<and> emitted st' = emitted st @ (if fires st opts then [(''style.css'', final_css B cfg (buffer_of st opts))] else [])
       \<and> hasEmitted st' = (hasEmitted st \<or> fires st opts)"
proof (cases "skip_asset_emit opts")
  case True
  then show ?thesis using assms by (simp add: generateBundle_def fires_def)
next
  case False
  define pr where "pr = (if pureCssChunks st \<noteq> [] then
                 (case emptyChunkRE B (format opts) (pureCssChunks st) of
                    Inl e \<Rightarrow> Inl e
                  | Inr emptyRE \<Rightarrow>
                      (case prune_all (pureCssChunks st) emptyRE (map fst b) b of
                         Inl e \<Rightarrow> Inl e
                       | Inr b1 \<Rightarrow>
                           (case remove_pure (pureCssChunks st) (removedPureCssFiles st, b1) of
                              (removed, b2) \<Rightarrow> Inr (st\<lparr>removedPureCssFiles := removed\<rparr>, b2))))
               else Inr (st, b))"
  obtain st1 b2 where pr: "pr = Inr (st1, b2)"
    using assms False unfolding generateBundle_def pr_def [symmetric]
    by (cases pr) auto
  have same: "outputToExtractedCSSMap st1 = outputToExtractedCSSMap st"
      "emitted st1 = emitted st" "hasEmitted st1 = hasEmitted st"
    using pr unfolding pr_def by (auto split: if_splits sum.splits prod.splits)
  have buf: "buffer_of st1 opts = buffer_of st opts" using same by (simp add: buffer_of_def)
  have unf: "generateBundle B cfg opts b st =
      (case map_of (outputToExtractedCSSMap st1) (opts_id opts) of
                Some extractedCss \<Rightarrow>
                  if extractedCss \<noteq> [] \<and> \<not> hasEmitted st1 then
                    (let st2 = st1\<lparr>hasEmitted := True\<rparr>
                     in case (if build_minify cfg then minifyCSS B cfg extractedCss st2
                              else (st2, Inr extractedCss)) of
                          (st3, Inl e) \<Rightarrow> Inl e
                        | (st3, Inr css) \<Rightarrow>
                            Inr (st3\<lparr>emitted := emitted st3 @ [(''style.css'', css)]\<rparr>, b2))
                  else Inr (st1, b2)
              | None \<Rightarrow> Inr (st1, b2))"
    using False pr unfolding generateBundle_def pr_def [symmetric] by simp
  show ?thesis
  proof (cases "fires st opts")
    case nf: False
    then have "generateBundle B cfg opts b st = Inr (st1, b2)"
      using unf False same by (auto simp: fires_def buffer_of_def split: option.splits)
    then show ?thesis using assms same nf by simp
  next
    case True
    then obtain css where css: "map_of (outputToExtractedCSSMap st1) (opts_id opts) = Some css"
      "css \<noteq> []" "\<not> hasEmitted st1" "buffer_of st opts = css"
      using same False by (auto simp: fires_def buffer_of_def split: option.splits)
    define st2 where "st2 = st1\<lparr>hasEmitted := True\<rparr>"
    show ?thesis
    proof (cases "build_minify cfg")
      case nomin: False
      then have "generateBundle B cfg opts b st
          = Inr (st2\<lparr>emitted := emitted st2 @ [(''style.css'', css)]\<rparr>, b2)"
        using unf css by (simp add: st2_def)
      then show ?thesis using assms same True css nomin by (auto simp: st2_def final_css_def)
    next
      case min: True
      obtain st3 res where m: "minifyCSS B cfg css st2 = (st3, res)"
        by (cases "minifyCSS B cfg css st2")
      have g: "generateBundle B cfg opts b st =
          (case res of Inl e \<Rightarrow> Inl e
           | Inr code \<Rightarrow> Inr (st3\<lparr>emitted := emitted st3 @ [(''style.css'', code)]\<rparr>, b2))"
        using unf css min m by (simp add: st2_def [symmetric])
      then obtain code where res: "res = Inr code" using assms by (cases res) auto
      have st': "st' = st3\<lparr>emitted := emitted st3 @ [(''style.css'', code)]\<rparr>"
        using g res assms by simp
      note f = minifyCSS_fields [OF m [unfolded res]]
      have "code = final_css B cfg css" using f(4) min by simp
      then show ?thesis using st' f same True css by (simp add: st2_def)
    qed
  qed
qed

text \<open>
  \<^verbatim>\<open>renderChunk\<close> never touches \<^verbatim>\<open>hasEmitted\<close>; without code splitting it emits
  nothing. Minifying changes the log of warnings only.
\<close>

lemma minifyCSS_state: "\<exists>w. fst (minifyCSS B cfg css st) = st\<lparr>post_warned := w\<rparr>"
proof -
  have "fst (minifyCSS B cfg css st)
          = st\<lparr>post_warned := post_warned (fst (minifyCSS B cfg css st))\<rparr>"
    by (simp add: minifyCSS_def split: sum.splits prod.splits)
  then show ?thesis by (rule exI)
qed

lemma processChunkCSS_state:
  "\<exists>w. fst (snd (processChunkCSS h B cfg css inl mini (chunk, st))) = st\<lparr>post_warned := w\<rparr>"
proof -
  have id: "st = st\<lparr>post_warned := post_warned st\<rparr>" by simp
  obtain css1 assets where r: "replace_asset_urls h B cfg inl css (importedAssets chunk) = (css1, assets)"
    by (cases "replace_asset_urls h B cfg inl css (importedAssets chunk)")
  show ?thesis
  proof (cases "if str_includes css1 ''@import'' then hoistAtImports B css1 else Inr css1")
    case (Inl e)
    then have "fst (snd (processChunkCSS h B cfg css inl mini (chunk, st))) = st"
      by (simp add: processChunkCSS_def r Let_def)
    then show ?thesis using id by metis
  next
    case (Inr css2)
    show ?thesis
    proof (cases "mini \<and> build_minify cfg")
      case False
      then have "fst (snd (processChunkCSS h B cfg css inl mini (chunk, st))) = st"
        using Inr by (auto simp: processChunkCSS_def r Let_def)
      then show ?thesis using id by metis
    next
      case True
      obtain st1 res where m: "minifyCSS B cfg css2 st = (st1, res)"
        by (cases "minifyCSS B cfg css2 st")
      have "fst (snd (processChunkCSS h B cfg css inl mini (chunk, st))) = st1"
        using Inr True m by (simp add: processChunkCSS_def r Let_def)
      then show ?thesis using minifyCSS_state [of B cfg css2 st] m by simp
    qed
  qed
qed

lemma renderChunk_hasEmitted:
  "hasEmitted (fst (renderChunk h B cfg code chunk opts st)) = hasEmitted st"
proof -
  obtain css p where cc: "chunk_css st (chunk_modules chunk) = (css, p)"
    by (cases "chunk_css st (chunk_modules chunk)")
  define st1 where "st1 = (if p then st\<lparr>pureCssChunks := set_add (pureCssChunks st) (fileName chunk)\<rparr> else st)"
  have st1: "hasEmitted st1 = hasEmitted st" by (simp add: st1_def)
  have a: "hasEmitted (fst (snd (processChunkCSS h B cfg css inl mini (chunk, s)))) = hasEmitted s"
    for inl mini s
    using processChunkCSS_state [of h B cfg css inl mini chunk s] by auto
  show ?thesis
  proof (cases "css = []")
    case True
    then show ?thesis using cc by (simp add: renderChunk_def)
  next
    case False
    show ?thesis
    proof (cases "build_cssCodeSplit cfg")
      case True
      have "hasEmitted (fst (renderChunk h B cfg code chunk opts st)) = hasEmitted st1"
        using cc False True a [of False True st1] a [of True True st1]
        by (auto simp: renderChunk_def Let_def st1_def [symmetric] split: prod.splits sum.splits)
      then show ?thesis using st1 by simp
    next
      case nosplit: False
      show ?thesis
        using cc False nosplit a [of False False st]
        by (auto simp: renderChunk_def Let_def split: prod.splits sum.splits)
    qed
  qed
qed

lemma renderChunk_emitted:
  assumes "\<not> build_cssCodeSplit cfg"
  shows "emitted (fst (renderChunk h B cfg code chunk opts st)) = emitted st"
proof -
  obtain css p where cc: "chunk_css st (chunk_modules chunk) = (css, p)"
    by (cases "chunk_css st (chunk_modules chunk)")
  have a: "emitted (fst (snd (processChunkCSS h B cfg css inl mini (chunk, s)))) = emitted s"
    for inl mini s
    using processChunkCSS_state [of h B cfg css inl mini chunk s] by auto
  show ?thesis
  proof (cases "css = []")
    case True
    then show ?thesis using cc by (simp add: renderChunk_def)
  next
    case False
    show ?thesis
      using cc False assms a [of False False st]
      by (auto simp: renderChunk_def Let_def split: prod.splits sum.splits)
  qed
qed

text \<open>One call of a hook, and then a run of calls.\<close>

lemma hook_step:
  assumes "run_hook h B cfg k st = Inr st1"
  shows "hasEmitted st1 = (hasEmitted st \<or> hook_emits k st st1 \<noteq> [])"
    and "hasEmitted st \<Longrightarrow> hook_emits k st st1 = []"
    and "length (hook_emits k st st1) \<le> 1"
    and "\<not> build_cssCodeSplit cfg \<Longrightarrow> emitted st1 = emitted st @ map snd (hook_emits k st st1)"
proof -
  have "hasEmitted st1 = (hasEmitted st \<or> hook_emits k st st1 \<noteq> [])
      \<and> (hasEmitted st \<longrightarrow> hook_emits k st st1 = [])
      \<and> length (hook_emits k st st1) \<le> 1
      \<and> (\<not> build_cssCodeSplit cfg \<longrightarrow> emitted st1 = emitted st @ map snd (hook_emits k st st1))"
  proof (cases k)
    case (RenderChunk code chunk opts)
    then have "st1 = fst (renderChunk h B cfg code chunk opts st)"
      using assms by (auto split: prod.splits sum.splits)
    then show ?thesis
      using RenderChunk renderChunk_hasEmitted [of h B cfg code chunk opts st]
        renderChunk_emitted [of cfg h B code chunk opts st]
      by simp
  next
    case (GenerateBundle opts b)
    then obtain b' where "generateBundle B cfg opts b st = Inr (st1, b')"
      using assms by (auto split: sum.splits)
    from generateBundle_emit [OF this] show ?thesis
      using GenerateBundle by (auto simp: fires_def)
  qed
  then show "hasEmitted st1 = (hasEmitted st \<or> hook_emits k st st1 \<noteq> [])"
    and "hasEmitted st \<Longrightarrow> hook_emits k st st1 = []"
    and "length (hook_emits k st st1) \<le> 1"
    and "\<not> build_cssCodeSplit cfg \<Longrightarrow> emitted st1 = emitted st @ map snd (hook_emits k st st1)"
    by blast+
qed

lemma generateBundle_hook_emits:
  assumes "run_hook h B cfg (GenerateBundle opts b) st = Inr st1"
  shows "hook_emits (GenerateBundle opts b) st st1
           = (if fires st opts then [(opts, ''style.css'', final_css B cfg (buffer_of st opts))] else [])"
proof -
  obtain b' where "generateBundle B cfg opts b st = Inr (st1, b')"
    using assms by (auto split: sum.splits)
  from generateBundle_emit [OF this] show ?thesis by simp
qed

lemma run_build_invariant:
  assumes "run_build h B cfg hooks st = Inr st'"
  shows "hasEmitted st' = (hasEmitted st \<or> style_emits h B cfg hooks st \<noteq> [])
       \<and> (hasEmitted st \<longrightarrow> style_emits h B cfg hooks st = [])
       \<and> length (style_emits h B cfg hooks st) \<le> 1
       \<and> (\<not> build_cssCodeSplit cfg \<longrightarrow>
            emitted st' = emitted st @ map snd (style_emits h B cfg hooks st))"
  using assms
proof (induction hooks arbitrary: st)
  case Nil
  then show ?case by simp
next
  case (Cons k ks)
  obtain st1 where k: "run_hook h B cfg k st = Inr st1"
    and rest: "run_build h B cfg ks st1 = Inr st'"
    using Cons.prems by (cases "run_hook h B cfg k st") auto
  note s = hook_step [OF k]
  note ih = Cons.IH [OF rest]
  have e: "style_emits h B cfg (k # ks) st = hook_emits k st st1 @ style_emits h B cfg ks st1"
    using k by simp
  show ?case
  proof (cases "hook_emits k st st1 = []")
    case True
    then show ?thesis using s ih e by auto
  next
    case False
    then have "hasEmitted st1" "\<not> hasEmitted st" using s(1,2) by auto
    then have "style_emits h B cfg ks st1 = []" using ih by blast
    then show ?thesis using s ih e False by auto
  qed
qed

lemma run_build_append:
  "run_build h B cfg (xs @ ys) st =
     (case run_build h B cfg xs st of Inl e \<Rightarrow> Inl e | Inr st1 \<Rightarrow> run_build h B cfg ys st1)"
  by (induction xs arbitrary: st) (auto split: sum.splits)

lemma style_emits_append:
  assumes "run_build h B cfg xs st = Inr st1"
  shows "style_emits h B cfg (xs @ ys) st = style_emits h B cfg xs st @ style_emits h B cfg ys st1"
  using assms
  by (induction xs arbitrary: st) (auto split: sum.splits)

text \<open>
  Claim C2 says that the aggregated css is emitted once for every output target and is
  never skipped for a target with an unemitted buffer. \<^verbatim>\<open>hasEmitted\<close> is one flag of
  the plugin for the whole build, not one per output ("when there are multiple rollup
  outputs and extracting CSS, only emit once"). In a build with two outputs, each
  rendered and then finalized: when the pass of the second output starts, its buffer
  holds css that has not been emitted, and after the pass the build has still emitted
  one asset only.
\<close>

theorem style_emitted_counterexample:
  "map_sum id (\<lambda>st. (buffer_of st cjs_output, emitted st))
       (run_build plain_host plain_rollup single_config (es_pass @ [cjs_render]) styled)
     = Inr (''a{}'', [(''style.css'', ''a{}'')])
   \<and> map_sum id emitted
       (run_build plain_host plain_rollup single_config (es_pass @ [cjs_render, cjs_finalize]) styled)
     = Inr [(''style.css'', ''a{}'')]"
proof -
  have 1: "map_sum id (\<lambda>st. (buffer_of st cjs_output, emitted st))
       (run_build plain_host plain_rollup single_config (es_pass @ [cjs_render]) styled)
     = Inr (''a{}'', [(''style.css'', ''a{}'')])"
    by code_simp
  have 2: "map_sum id emitted
       (run_build plain_host plain_rollup single_config (es_pass @ [cjs_render, cjs_finalize]) styled)
     = Inr [(''style.css'', ''a{}'')]"
    by code_simp
  show ?thesis using 1 2 by simp
qed

text \<open>
  Claim C2, as amended. In one build, that is over any sequence of \<^verbatim>\<open>renderChunk\<close>
  and \<^verbatim>\<open>generateBundle\<close> calls on the state of the plugin that ends normally, the
  \<^verbatim>\<open>generateBundle\<close> calls emit at most one asset in all, and none when
  \<^verbatim>\<open>hasEmitted\<close> is set at the start; \<^verbatim>\<open>hasEmitted\<close> is set at the end exactly when
  it was set at the start or a call has emitted. A \<^verbatim>\<open>generateBundle\<close> call emits
  exactly when it is not skipped, the buffer of its output is not empty when it is
  called, and \<^verbatim>\<open>hasEmitted\<close> is not set when it is called (it is set exactly when it
  was set at the start or an earlier call has emitted); what it emits is that buffer,
  minified when the build minifies, as \<^verbatim>\<open>style.css\<close>. Without code splitting these
  are the only assets emitted.
\<close>

theorem style_emitted_once:
  assumes "run_build h B cfg hooks st = Inr st'"
  shows "length (style_emits h B cfg hooks st) \<le> 1
       \<and> (hasEmitted st \<longrightarrow> style_emits h B cfg hooks st = [])
       \<and> hasEmitted st' = (hasEmitted st \<or> style_emits h B cfg hooks st \<noteq> [])
       \<and> (\<forall>pre opts b post st1.
             hooks = pre @ GenerateBundle opts b # post \<and> run_build h B cfg pre st = Inr st1 \<longrightarrow>
               hasEmitted st1 = (hasEmitted st \<or> style_emits h B cfg pre st \<noteq> [])
               \<and> style_emits h B cfg (pre @ [GenerateBundle opts b]) st
                   = style_emits h B cfg pre st
                     @ (if \<not> skip_asset_emit opts \<and> buffer_of st1 opts \<noteq> [] \<and> \<not> hasEmitted st1
                        then [(opts, ''style.css'', final_css B cfg (buffer_of st1 opts))] else []))
       \<and> (\<not> build_cssCodeSplit cfg \<longrightarrow>
            emitted st' = emitted st @ map snd (style_emits h B cfg hooks st))"
proof -
  note inv = run_build_invariant [OF assms]
  have each: "hasEmitted st1 = (hasEmitted st \<or> style_emits h B cfg pre st \<noteq> [])
               \<and> style_emits h B cfg (pre @ [GenerateBundle opts b]) st
                   = style_emits h B cfg pre st
                     @ (if \<not> skip_asset_emit opts \<and> buffer_of st1 opts \<noteq> [] \<and> \<not> hasEmitted st1
                        then [(opts, ''style.css'', final_css B cfg (buffer_of st1 opts))] else [])"
    if hooks: "hooks = pre @ GenerateBundle opts b # post"
      and pre: "run_build h B cfg pre st = Inr st1" for pre opts b post st1
  proof -
    have "run_build h B cfg (GenerateBundle opts b # post) st1 = Inr st'"
      using assms pre unfolding hooks run_build_append by simp
    then obtain st2 where g: "run_hook h B cfg (GenerateBundle opts b) st1 = Inr st2"
      by (cases "run_hook h B cfg (GenerateBundle opts b) st1") auto
    have "style_emits h B cfg [GenerateBundle opts b] st1
            = hook_emits (GenerateBundle opts b) st1 st2"
      using g by simp
    then have "style_emits h B cfg (pre @ [GenerateBundle opts b]) st
            = style_emits h B cfg pre st
              @ (if fires st1 opts then [(opts, ''style.css'', final_css B cfg (buffer_of st1 opts))]
                 else [])"
      using style_emits_append [OF pre, of "[GenerateBundle opts b]"]
        generateBundle_hook_emits [OF g] by simp
    then show ?thesis
      using run_build_invariant [OF pre] by (simp add: fires_def)
  qed
  show ?thesis using inv each by blast
qed

theorem style_emitted_once_witness:
  "style_emits plain_host plain_rollup single_config (es_pass @ [cjs_render, cjs_finalize]) styled
     = [(es_output, ''style.css'', ''a{}'')]
   \<and> map_sum id (\<lambda>st. (hasEmitted st, emitted st))
       (run_build plain_host plain_rollup single_config (es_pass @ [cjs_render, cjs_finalize]) styled)
     = Inr (True, [(''style.css'', ''a{}'')])"
proof -
  let ?hooks = "es_pass @ [cjs_render, cjs_finalize]"
  have ok: "\<not> isl (run_build plain_host plain_rollup single_config ?hooks styled)"
    by code_simp
  then obtain st' where r: "run_build plain_host plain_rollup single_config ?hooks styled = Inr st'"
    by (cases "run_build plain_host plain_rollup single_config ?hooks styled") auto
  have e: "style_emits plain_host plain_rollup single_config ?hooks styled
             = [(es_output, ''style.css'', ''a{}'')]"
    by code_simp
  have s: "emitted styled = []" by code_simp
  have c: "\<not> build_cssCodeSplit single_config" by code_simp
  note t = style_emitted_once [OF r]
  have 1: "hasEmitted st'"
    using t [THEN conjunct2, THEN conjunct2, THEN conjunct1] e by simp
  have 2: "emitted st' = [(''style.css'', ''a{}'')]"
    using t [THEN conjunct2, THEN conjunct2, THEN conjunct2, THEN conjunct2] c e s by simp
  show ?thesis using e r 1 2 by simp
qed

section \<open>Properties of the pruning of pure css chunks\<close>

lemma segs_nil: "concat (map (case_sum id id) (segs r k d [])) = []"
  by (cases k) (simp_all split: option.splits)

lemma segs_concat: "concat (map (case_sum id id) (segs r k d s)) = drop k s"
proof (induction r k d s rule: segs.induct)
  case (1 r k d c cs)
  then show ?case by simp
next
  case (2 r k d)
  show ?case by (simp add: segs_nil del: segs.simps)
next
  case (3 r d c cs)
  show ?case
  proof (cases "match_here r d (c # cs)")
    case None
    then show ?thesis using 3 by simp
  next
    case (Some m)
    show ?thesis
    proof (cases "fst m")
      case 0
      then show ?thesis using 3 Some by simp
    next
      case (Suc j)
      have "fst m \<noteq> 0" using Suc by simp
      from 3(3) [OF Some this]
      have "concat (map (case_sum id id) (segs r (fst m - 1) (c # d) cs)) = drop (fst m - 1) cs" .
      then show ?thesis using Some Suc by simp
    qed
  qed
qed

lemma segments_concat: "concat (map (case_sum id id) (segments r s)) = s"
  by (simp add: segments_def segs_concat)

lemma length_placeholder: "length (placeholder m) = max 15 (length m)"
  by (simp add: placeholder_def)

lemma map_of_update_chunk:
  "map_of (update_chunk f g b) k =
     (if k = f then (case map_of b f of Some (ChunkItem c) \<Rightarrow> Some (ChunkItem (g c)) | x \<Rightarrow> x)
      else map_of b k)"
  by (induction b) (auto simp: update_chunk_def split: bundle_item.splits)

lemma set_fold_set_add': "set (fold (\<lambda>f acc. set_add acc f) xs acc) = set acc \<union> set xs"
  by (induction xs arbitrary: acc) (auto simp: set_set_add)

lemma grows_refl: "grows b b"
  by (auto simp: grows_def)

lemma grows_trans: "grows a b \<Longrightarrow> grows b c \<Longrightarrow> grows a c"
  unfolding grows_def
  by (meson subset_trans)

lemma grows_update_chunk:
  assumes "\<And>c. set (importedCss c) \<subseteq> set (importedCss (g c))"
  shows "grows b (update_chunk f g b)"
  unfolding grows_def
proof (intro allI conjI impI)
  fix k c assume "map_of b k = Some (ChunkItem c)"
  then show "\<exists>c'. map_of (update_chunk f g b) k = Some (ChunkItem c')
                \<and> set (importedCss c) \<subseteq> set (importedCss c')"
    using assms by (auto simp: map_of_update_chunk)
next
  fix k c' assume a: "map_of (update_chunk f g b) k = Some (ChunkItem c')"
  show "\<exists>c. map_of b k = Some (ChunkItem c) \<and> set (importedCss c) \<subseteq> set (importedCss c')"
  proof (cases "k = f")
    case False
    then show ?thesis using a by (auto simp: map_of_update_chunk)
  next
    case True
    then obtain c where "map_of b f = Some (ChunkItem c)" "c' = g c"
      using a by (auto simp: map_of_update_chunk split: option.splits bundle_item.splits)
    then show ?thesis using True assms by auto
  qed
qed

lemma relink_props:
  assumes "relink pure f imps b = Inr b1" and "map_of b f = Some (ChunkItem c)"
  shows "grows b b1 \<and> (\<forall>k. k \<noteq> f \<longrightarrow> map_of b1 k = map_of b k)
       \<and> (\<exists>c1. map_of b1 f = Some (ChunkItem c1) \<and> chunk_imports c1 = chunk_imports c
             \<and> chunk_code c1 = chunk_code c
             \<and> (\<forall>p\<in>set imps. p \<in> set pure \<longrightarrow>
                   (\<exists>pc. map_of b p = Some (ChunkItem pc)
                        \<and> set (importedCss pc) \<subseteq> set (importedCss c1))))"
  using assms
proof (induction imps arbitrary: b c)
  case Nil
  then show ?case by (auto simp: grows_refl)
next
  case (Cons imp rest)
  show ?case
  proof (cases "imp \<in> set pure")
    case False
    then have "relink pure f rest b = Inr b1" using Cons.prems by simp
    from Cons.IH [OF this Cons.prems(2)] show ?thesis using False by auto
  next
    case True
    then obtain removed where rem: "map_of b imp = Some (ChunkItem removed)"
      using Cons.prems(1)
      by (cases "map_of b imp") (auto split: bundle_item.splits)
    define g where "g = (\<lambda>c :: chunk. c\<lparr>importedCss :=
        fold (\<lambda>f acc. set_add acc f) (importedCss removed) (importedCss c)\<rparr>)"
    define b' where "b' = update_chunk f g b"
    have rec: "relink pure f rest b' = Inr b1"
      using Cons.prems(1) True rem by (simp add: b'_def g_def)
    have gmono: "set (importedCss x) \<subseteq> set (importedCss (g x))" for x
      by (simp add: g_def set_fold_set_add')
    have grem: "set (importedCss removed) \<subseteq> set (importedCss (g x))" for x
      by (simp add: g_def set_fold_set_add')
    have gr: "grows b b'" unfolding b'_def by (rule grows_update_chunk) (rule gmono)
    have at_f: "map_of b' f = Some (ChunkItem (g c))"
      using Cons.prems(2) by (simp add: b'_def map_of_update_chunk)
    have other: "k \<noteq> f \<Longrightarrow> map_of b' k = map_of b k" for k
      by (simp add: b'_def map_of_update_chunk)
    from Cons.IH [OF rec at_f]
    obtain c1 where ih: "grows b' b1" "\<forall>k. k \<noteq> f \<longrightarrow> map_of b1 k = map_of b' k"
        "map_of b1 f = Some (ChunkItem c1)" "chunk_imports c1 = chunk_imports (g c)"
        "chunk_code c1 = chunk_code (g c)"
        "\<forall>p\<in>set rest. p \<in> set pure \<longrightarrow>
           (\<exists>pc. map_of b' p = Some (ChunkItem pc) \<and> set (importedCss pc) \<subseteq> set (importedCss c1))"
      by blast
    have gc1: "set (importedCss (g c)) \<subseteq> set (importedCss c1)"
      using ih(1,3) at_f unfolding grows_def by fastforce
    have imps: "\<exists>pc. map_of b p = Some (ChunkItem pc) \<and> set (importedCss pc) \<subseteq> set (importedCss c1)"
      if p: "p \<in> set (imp # rest)" "p \<in> set pure" for p
    proof (cases "p = imp")
      case True
      then show ?thesis using rem grem [of c] gc1 by auto
    next
      case False
      then have "p \<in> set rest" using p by simp
      then obtain pc' where pc': "map_of b' p = Some (ChunkItem pc')"
          "set (importedCss pc') \<subseteq> set (importedCss c1)"
        using ih(6) p(2) by blast
      then obtain pc where "map_of b p = Some (ChunkItem pc)"
          "set (importedCss pc) \<subseteq> set (importedCss pc')"
        using gr unfolding grows_def by blast
      then show ?thesis using pc'(2) by blast
    qed
    have "grows b b1" using gr ih(1) by (rule grows_trans)
    moreover have "\<forall>k. k \<noteq> f \<longrightarrow> map_of b1 k = map_of b k" using ih(2) other by simp
    moreover have "chunk_imports c1 = chunk_imports c" "chunk_code c1 = chunk_code c"
      using ih(4,5) by (simp_all add: g_def)
    ultimately show ?thesis using ih(3) imps by blast
  qed
qed

lemma prune_chunk_props:
  assumes "prune_chunk pure r f b = Inr b1"
  shows "grows b b1 \<and> (\<forall>k. k \<noteq> f \<longrightarrow> map_of b1 k = map_of b k)
       \<and> (\<forall>c. map_of b f = Some (ChunkItem c) \<longrightarrow>
            (\<exists>c1. map_of b1 f = Some (ChunkItem c1)
               \<and> chunk_imports c1 = filter (\<lambda>i. i \<notin> set pure) (chunk_imports c)
               \<and> chunk_code c1 = js_replace r placeholder (chunk_code c)
               \<and> (\<forall>p\<in>set (chunk_imports c). p \<in> set pure \<longrightarrow>
                     (\<exists>pc. map_of b p = Some (ChunkItem pc)
                          \<and> set (importedCss pc) \<subseteq> set (importedCss c1)))))"
proof (cases "\<exists>c. map_of b f = Some (ChunkItem c)")
  case False
  then have "b1 = b" using assms
    by (auto simp: prune_chunk_def split: option.splits bundle_item.splits)
  then show ?thesis using False by (auto simp: grows_refl)
next
  case True
  then obtain c where c: "map_of b f = Some (ChunkItem c)" by blast
  obtain b2 where r: "relink pure f (chunk_imports c) b = Inr b2"
    using assms c by (cases "relink pure f (chunk_imports c) b") (auto simp: prune_chunk_def)
  define g where "g = (\<lambda>x :: chunk. x\<lparr>chunk_imports := filter (\<lambda>f. f \<notin> set pure) (chunk_imports x),
                              chunk_code := js_replace r placeholder (chunk_code x)\<rparr>)"
  have b1: "b1 = update_chunk f g b2"
    using assms c r by (simp add: prune_chunk_def g_def)
  from relink_props [OF r c]
  obtain c2 where ih: "grows b b2" "\<forall>k. k \<noteq> f \<longrightarrow> map_of b2 k = map_of b k"
      "map_of b2 f = Some (ChunkItem c2)" "chunk_imports c2 = chunk_imports c"
      "chunk_code c2 = chunk_code c"
      "\<forall>p\<in>set (chunk_imports c). p \<in> set pure \<longrightarrow>
         (\<exists>pc. map_of b p = Some (ChunkItem pc) \<and> set (importedCss pc) \<subseteq> set (importedCss c2))"
    by blast
  have "grows b2 b1" unfolding b1 by (rule grows_update_chunk) (simp add: g_def)
  then have 1: "grows b b1" using ih(1) grows_trans by blast
  have 2: "\<forall>k. k \<noteq> f \<longrightarrow> map_of b1 k = map_of b k"
    using ih(2) by (simp add: b1 map_of_update_chunk)
  have 3: "map_of b1 f = Some (ChunkItem (g c2))"
    using ih(3) by (simp add: b1 map_of_update_chunk)
  have 4: "chunk_imports (g c2) = filter (\<lambda>i. i \<notin> set pure) (chunk_imports c)"
      "chunk_code (g c2) = js_replace r placeholder (chunk_code c)"
      "importedCss (g c2) = importedCss c2"
    using ih(4,5) by (simp_all add: g_def)
  show ?thesis using 1 2 3 4 ih(6) c by auto
qed

lemma prune_all_props:
  assumes "prune_all pure r ks b = Inr b'" and "distinct ks"
  shows "grows b b' \<and> (\<forall>k. k \<notin> set ks \<longrightarrow> map_of b' k = map_of b k)
       \<and> (\<forall>k\<in>set ks. \<forall>c. map_of b k = Some (ChunkItem c) \<longrightarrow>
            (\<exists>c'. map_of b' k = Some (ChunkItem c')
               \<and> chunk_imports c' = filter (\<lambda>i. i \<notin> set pure) (chunk_imports c)
               \<and> chunk_code c' = js_replace r placeholder (chunk_code c)
               \<and> (\<forall>p\<in>set (chunk_imports c). p \<in> set pure \<longrightarrow>
                     (\<exists>pc. map_of b p = Some (ChunkItem pc)
                          \<and> set (importedCss pc) \<subseteq> set (importedCss c')))))"
  using assms
proof (induction ks arbitrary: b)
  case Nil
  then show ?case by (auto simp: grows_refl)
next
  case (Cons f ks)
  obtain b1 where step: "prune_chunk pure r f b = Inr b1" and rest: "prune_all pure r ks b1 = Inr b'"
    using Cons.prems(1) by (cases "prune_chunk pure r f b") auto
  have d: "distinct ks" "f \<notin> set ks" using Cons.prems(2) by auto
  note s = prune_chunk_props [OF step]
  note ih = Cons.IH [OF rest d(1)]
  have g: "grows b b'" using s ih grows_trans by blast
  have unch: "\<forall>k. k \<notin> set (f # ks) \<longrightarrow> map_of b' k = map_of b k"
    using s ih by auto
  have each: "\<exists>c'. map_of b' k = Some (ChunkItem c')
               \<and> chunk_imports c' = filter (\<lambda>i. i \<notin> set pure) (chunk_imports c)
               \<and> chunk_code c' = js_replace r placeholder (chunk_code c)
               \<and> (\<forall>p\<in>set (chunk_imports c). p \<in> set pure \<longrightarrow>
                     (\<exists>pc. map_of b p = Some (ChunkItem pc)
                          \<and> set (importedCss pc) \<subseteq> set (importedCss c')))"
    if k: "k \<in> set (f # ks)" and c: "map_of b k = Some (ChunkItem c)" for k c
  proof (cases "k = f")
    case True
    then obtain c1 where c1: "map_of b1 f = Some (ChunkItem c1)"
        "chunk_imports c1 = filter (\<lambda>i. i \<notin> set pure) (chunk_imports c)"
        "chunk_code c1 = js_replace r placeholder (chunk_code c)"
        "\<forall>p\<in>set (chunk_imports c). p \<in> set pure \<longrightarrow>
           (\<exists>pc. map_of b p = Some (ChunkItem pc) \<and> set (importedCss pc) \<subseteq> set (importedCss c1))"
      using s c by blast
    have "map_of b' f = map_of b1 f" using ih d(2) by blast
    then show ?thesis using True c1 by auto
  next
    case False
    then have kk: "k \<in> set ks" using k by simp
    have "map_of b1 k = Some (ChunkItem c)" using s False c by auto
    then obtain c' where c': "map_of b' k = Some (ChunkItem c')"
        "chunk_imports c' = filter (\<lambda>i. i \<notin> set pure) (chunk_imports c)"
        "chunk_code c' = js_replace r placeholder (chunk_code c)"
        "\<forall>p\<in>set (chunk_imports c). p \<in> set pure \<longrightarrow>
           (\<exists>pc. map_of b1 p = Some (ChunkItem pc) \<and> set (importedCss pc) \<subseteq> set (importedCss c'))"
      using ih kk by blast
    have "\<exists>pc. map_of b p = Some (ChunkItem pc) \<and> set (importedCss pc) \<subseteq> set (importedCss c')"
      if p: "p \<in> set (chunk_imports c)" "p \<in> set pure" for p
    proof -
      obtain pc1 where pc1: "map_of b1 p = Some (ChunkItem pc1)"
          "set (importedCss pc1) \<subseteq> set (importedCss c')"
        using c'(4) p by blast
      have "grows b b1" using s by blast
      then obtain pc where "map_of b p = Some (ChunkItem pc)"
          "set (importedCss pc) \<subseteq> set (importedCss pc1)"
        using pc1(1) unfolding grows_def by blast
      then show ?thesis using pc1(2) by blast
    qed
    then show ?thesis using c' by blast
  qed
  show ?case using g unch each by blast
qed

lemma remove_pure_map_of:
  "map_of (snd (fold (\<lambda>fileName (removed, b).
       (AList.update fileName (map_of b fileName) removed, AList.delete fileName b)) pure (rm, b))) k
     = (if k \<in> set pure then None else map_of b k)"
  by (induction pure arbitrary: rm b) (auto simp: delete_conv')

lemma in_css_pool:
  "x \<in> css_pool pure b \<longleftrightarrow>
     (\<exists>p pc. p \<in> set pure \<and> map_of b p = Some (ChunkItem pc) \<and> x \<in> set (importedCss pc))"
proof
  assume "x \<in> css_pool pure b"
  then obtain p where p: "p \<in> set pure"
      "x \<in> set (case map_of b p of Some (ChunkItem pc) \<Rightarrow> importedCss pc | _ \<Rightarrow> [])"
    by (auto simp: css_pool_def)
  then obtain pc where "map_of b p = Some (ChunkItem pc)" "x \<in> set (importedCss pc)"
    by (cases "map_of b p") (auto split: bundle_item.splits)
  then show "\<exists>p pc. p \<in> set pure \<and> map_of b p = Some (ChunkItem pc) \<and> x \<in> set (importedCss pc)"
    using p(1) by blast
next
  assume "\<exists>p pc. p \<in> set pure \<and> map_of b p = Some (ChunkItem pc) \<and> x \<in> set (importedCss pc)"
  then obtain p pc where p: "p \<in> set pure" "map_of b p = Some (ChunkItem pc)"
      "x \<in> set (importedCss pc)"
    by blast
  then have "x \<in> set (case map_of b p of Some (ChunkItem pc) \<Rightarrow> importedCss pc | _ \<Rightarrow> [])"
    by simp
  then show "x \<in> css_pool pure b"
    using p(1) unfolding css_pool_def by auto
qed

lemma css_pool_I:
  assumes "p \<in> set pure" and "map_of b p = Some (ChunkItem pc)"
  shows "set (importedCss pc) \<subseteq> css_pool pure b"
proof
  fix x assume "x \<in> set (importedCss pc)"
  then show "x \<in> css_pool pure b"
    unfolding in_css_pool using assms by blast
qed

lemma within_refl: "within P b b"
  by (auto simp: within_def)

lemma within_trans:
  assumes "within P a b" and "within P b c"
  shows "within P a c"
  unfolding within_def
proof (intro allI impI)
  fix k c' assume "map_of c k = Some (ChunkItem c')"
  then obtain c1 where c1: "map_of b k = Some (ChunkItem c1)"
      "set (importedCss c') \<subseteq> set (importedCss c1) \<union> P"
    using assms(2) unfolding within_def by blast
  then obtain c0 where c0: "map_of a k = Some (ChunkItem c0)"
      "set (importedCss c1) \<subseteq> set (importedCss c0) \<union> P"
    using assms(1) unfolding within_def by blast
  have "set (importedCss c') \<subseteq> set (importedCss c0) \<union> P" using c1(2) c0(2) by blast
  then show "\<exists>c. map_of a k = Some (ChunkItem c) \<and> set (importedCss c') \<subseteq> set (importedCss c) \<union> P"
    using c0(1) by blast
qed

lemma within_update_chunk:
  assumes "\<And>c. set (importedCss (g c)) \<subseteq> set (importedCss c) \<union> P"
  shows "within P b (update_chunk f g b)"
  unfolding within_def
proof (intro allI impI)
  fix k c' assume a: "map_of (update_chunk f g b) k = Some (ChunkItem c')"
  show "\<exists>c. map_of b k = Some (ChunkItem c) \<and> set (importedCss c') \<subseteq> set (importedCss c) \<union> P"
  proof (cases "k = f")
    case False
    then show ?thesis using a by (auto simp: map_of_update_chunk)
  next
    case True
    then obtain c where "map_of b f = Some (ChunkItem c)" "c' = g c"
      using a by (auto simp: map_of_update_chunk split: option.splits bundle_item.splits)
    then show ?thesis using True assms by auto
  qed
qed

lemma pool_update_chunk:
  assumes "css_pool pure b \<subseteq> P"
      and "\<And>c. set (importedCss (g c)) \<subseteq> set (importedCss c) \<union> P"
  shows "css_pool pure (update_chunk f g b) \<subseteq> P"
proof
  fix x assume "x \<in> css_pool pure (update_chunk f g b)"
  then obtain p pc where p: "p \<in> set pure" "map_of (update_chunk f g b) p = Some (ChunkItem pc)"
      "x \<in> set (importedCss pc)"
    unfolding in_css_pool by blast
  show "x \<in> P"
  proof (cases "p = f")
    case False
    then have "map_of b p = Some (ChunkItem pc)" using p(2) by (simp add: map_of_update_chunk)
    then have "x \<in> css_pool pure b" using p(1,3) unfolding in_css_pool by blast
    then show ?thesis using assms(1) by blast
  next
    case True
    then obtain c where c: "map_of b f = Some (ChunkItem c)" "pc = g c"
      using p(2) by (auto simp: map_of_update_chunk split: option.splits bundle_item.splits)
    have "set (importedCss c) \<subseteq> css_pool pure b"
      using c(1) p(1) True by (intro css_pool_I [of f]) simp_all
    then show ?thesis using p(3) c(2) assms by blast
  qed
qed

lemma relink_within:
  assumes "relink pure f imps b = Inr b1" and "css_pool pure b \<subseteq> P"
  shows "within P b b1 \<and> css_pool pure b1 \<subseteq> P"
  using assms
proof (induction imps arbitrary: b)
  case Nil
  then show ?case by (simp add: within_refl)
next
  case (Cons imp rest)
  show ?case
  proof (cases "imp \<in> set pure")
    case False
    then have "relink pure f rest b = Inr b1" using Cons.prems by simp
    from Cons.IH [OF this Cons.prems(2)] show ?thesis .
  next
    case True
    then obtain removed where rem: "map_of b imp = Some (ChunkItem removed)"
      using Cons.prems(1)
      by (cases "map_of b imp") (auto split: bundle_item.splits)
    define g where "g = (\<lambda>c :: chunk. c\<lparr>importedCss :=
        fold (\<lambda>f acc. set_add acc f) (importedCss removed) (importedCss c)\<rparr>)"
    define b' where "b' = update_chunk f g b"
    have rec: "relink pure f rest b' = Inr b1"
      using Cons.prems(1) True rem by (simp add: b'_def g_def)
    have "set (importedCss removed) \<subseteq> css_pool pure b"
      using rem True by (intro css_pool_I [of imp]) simp_all
    then have rp: "set (importedCss removed) \<subseteq> P" using Cons.prems(2) by blast
    have gb: "set (importedCss (g x)) \<subseteq> set (importedCss x) \<union> P" for x
      using rp by (auto simp: g_def set_fold_set_add')
    have w: "within P b b'" unfolding b'_def by (rule within_update_chunk) (rule gb)
    have pl: "css_pool pure b' \<subseteq> P"
      unfolding b'_def by (rule pool_update_chunk [OF Cons.prems(2)]) (rule gb)
    from Cons.IH [OF rec pl] show ?thesis using w within_trans by blast
  qed
qed

lemma prune_chunk_within:
  assumes "prune_chunk pure r f b = Inr b1" and "css_pool pure b \<subseteq> P"
  shows "within P b b1 \<and> css_pool pure b1 \<subseteq> P"
proof (cases "\<exists>c. map_of b f = Some (ChunkItem c)")
  case False
  then have "b1 = b" using assms(1)
    by (auto simp: prune_chunk_def split: option.splits bundle_item.splits)
  then show ?thesis using assms(2) by (simp add: within_refl)
next
  case True
  then obtain c where c: "map_of b f = Some (ChunkItem c)" by blast
  obtain b2 where r: "relink pure f (chunk_imports c) b = Inr b2"
    using assms(1) c by (cases "relink pure f (chunk_imports c) b") (auto simp: prune_chunk_def)
  define g where "g = (\<lambda>x :: chunk. x\<lparr>chunk_imports := filter (\<lambda>f. f \<notin> set pure) (chunk_imports x),
                              chunk_code := js_replace r placeholder (chunk_code x)\<rparr>)"
  have b1: "b1 = update_chunk f g b2"
    using assms(1) c r by (simp add: prune_chunk_def g_def)
  note rw = relink_within [OF r assms(2)]
  have gb: "set (importedCss (g x)) \<subseteq> set (importedCss x) \<union> P" for x
    by (simp add: g_def)
  have "within P b2 b1" unfolding b1 by (rule within_update_chunk) (rule gb)
  moreover have "css_pool pure b1 \<subseteq> P"
    unfolding b1 using rw by (intro pool_update_chunk gb) blast
  ultimately show ?thesis using rw within_trans by blast
qed

lemma prune_all_within:
  assumes "prune_all pure r ks b = Inr b'" and "css_pool pure b \<subseteq> P"
  shows "within P b b' \<and> css_pool pure b' \<subseteq> P"
  using assms
proof (induction ks arbitrary: b)
  case Nil
  then show ?case by (simp add: within_refl)
next
  case (Cons f ks)
  obtain b1 where step: "prune_chunk pure r f b = Inr b1" and rest: "prune_all pure r ks b1 = Inr b'"
    using Cons.prems(1) by (cases "prune_chunk pure r f b") auto
  note s = prune_chunk_within [OF step Cons.prems(2)]
  from Cons.IH [OF rest] s show ?case using within_trans by blast
qed

lemma generateBundle_bundle:
  assumes "\<not> skip_asset_emit opts" and "generateBundle B cfg opts b st = Inr (st', b')"
      and "pureCssChunks st \<noteq> []"
  shows "\<exists>r b1. emptyChunkRE B (format opts) (pureCssChunks st) = Inr r
           \<and> prune_all (pureCssChunks st) r (map fst b) b = Inr b1
           \<and> (\<forall>k. map_of b' k = (if k \<in> set (pureCssChunks st) then None else map_of b1 k))"
proof -
  define pure where "pure = pureCssChunks st"
  obtain r where re: "emptyChunkRE B (format opts) pure = Inr r"
    using assms unfolding generateBundle_def pure_def [symmetric]
    by (cases "emptyChunkRE B (format opts) pure") auto
  obtain b1 where p: "prune_all pure r (map fst b) b = Inr b1"
    using assms re unfolding generateBundle_def pure_def [symmetric]
    by (cases "prune_all pure r (map fst b) b") auto
  obtain removed b2 where rp: "remove_pure pure (removedPureCssFiles st, b1) = (removed, b2)"
    by (cases "remove_pure pure (removedPureCssFiles st, b1)")
  have b2: "map_of b2 k = (if k \<in> set pure then None else map_of b1 k)" for k
    using remove_pure_map_of [of pure "removedPureCssFiles st" b1 k] rp
    by (simp add: remove_pure_def)
  have "b' = b2"
    using assms re p rp unfolding generateBundle_def pure_def [symmetric]
    by (auto simp: Let_def split: option.splits if_splits prod.splits sum.splits)
  then show ?thesis using re p b2 unfolding pure_def by blast
qed

text \<open>
  Claim C4 says that after the finalize pass every pure css chunk is gone and every
  matched import statement has become a placeholder of the same length. Two inputs show
  otherwise. For an output with \<^verbatim>\<open>__vite_skip_asset_emit__\<close> the pass returns at once
  and the pure css chunk stays in the bundle. And the placeholder
  \<^verbatim>\<open>/* empty css */\<close> has 15 characters before any padding, so a shorter match
  (here \<^verbatim>\<open>import"./a";\<close>, 12 characters, for a chunk file named \<^verbatim>\<open>a\<close>) is
  replaced by a longer text: the code grows from 19 to 22 characters.
\<close>

theorem generateBundle_prunes_counterexample:
  "''a'' \<in> set (pureCssChunks short_state)
   \<and> map_of short_bundle ''a'' = Some (ChunkItem short_rendered)
   \<and> generateBundle plain_rollup split_config legacy_output short_bundle short_state
       = Inr (short_state, short_bundle)
   \<and> chunk_code short_main = ''import'' @ [CHR 0x22] @ ''./a'' @ [CHR 0x22] @ '';main();''
   \<and> generateBundle plain_rollup split_config es_output short_bundle short_state
       = Inr (short_state\<lparr>removedPureCssFiles := [(''a'', Some (ChunkItem short_rendered))]\<rparr>,
              [(''main'', ChunkItem (short_main\<lparr>chunk_imports := [],
                                        chunk_code := ''/* empty css */main();'',
                                        importedCss := [''assets/a.css'']\<rparr>))])
   \<and> length (chunk_code short_main) = 19 \<and> length ''/* empty css */main();'' = 22"
proof -
  have 1: "''a'' \<in> set (pureCssChunks short_state)" by code_simp
  have 2: "map_of short_bundle ''a'' = Some (ChunkItem short_rendered)" by code_simp
  have 3: "generateBundle plain_rollup split_config legacy_output short_bundle short_state
       = Inr (short_state, short_bundle)"
    by (simp add: generateBundle_def legacy_output_def)
  have 4: "chunk_code short_main = ''import'' @ [CHR 0x22] @ ''./a'' @ [CHR 0x22] @ '';main();''"
    by code_simp
  have 5: "generateBundle plain_rollup split_config es_output short_bundle short_state
       = Inr (short_state\<lparr>removedPureCssFiles := [(''a'', Some (ChunkItem short_rendered))]\<rparr>,
              [(''main'', ChunkItem (short_main\<lparr>chunk_imports := [],
                                        chunk_code := ''/* empty css */main();'',
                                        importedCss := [''assets/a.css'']\<rparr>))])"
    by code_simp
  have 6: "length (chunk_code short_main) = 19" by (simp add: 4)
  have 7: "length ''/* empty css */main();'' = 22" by simp
  show ?thesis using 1 2 3 4 5 6 7 by blast
qed

text \<open>
  Claim C4, as amended. When the finalize pass is not skipped and ends normally, with
  pure css chunks registered, the engine has compiled the pattern of the import
  expression, and: every pure css chunk is absent from the bundle; every other chunk is
  still there, its \<^verbatim>\<open>imports\<close> are the former ones without the pure css chunks, its
  \<^verbatim>\<open>importedCss\<close> holds its own former css files and the css files of every pure css
  chunk it imported, and nothing but its own files and css files of pure css chunks of
  the bundle, and its code is the former code in which every match of the compiled
  import expression is replaced by its placeholder; the placeholder of a match of at
  least 15 characters has the length of the match. The pattern is the one the source
  writes, in which a chunk name is escaped at its dots only, so what a name matches is
  what the engine reads in it.
\<close>

theorem generateBundle_prunes:
  assumes "\<not> skip_asset_emit opts" and "generateBundle B cfg opts b st = Inr (st', b')"
      and "distinct (map fst b)" and "pureCssChunks st \<noteq> []"
  shows "\<exists>emptyRE. emptyChunkRE B (format opts) (pureCssChunks st) = Inr emptyRE
       \<and> (\<forall>f\<in>set (pureCssChunks st). map_of b' f = None)
       \<and> (\<forall>f c. f \<notin> set (pureCssChunks st) \<and> map_of b f = Some (ChunkItem c) \<longrightarrow>
            (\<exists>c'. map_of b' f = Some (ChunkItem c')
               \<and> chunk_imports c' = filter (\<lambda>i. i \<notin> set (pureCssChunks st)) (chunk_imports c)
               \<and> set (importedCss c) \<subseteq> set (importedCss c')
               \<and> (\<forall>p\<in>set (chunk_imports c). p \<in> set (pureCssChunks st) \<longrightarrow>
                     (\<exists>pc. map_of b p = Some (ChunkItem pc)
                          \<and> set (importedCss pc) \<subseteq> set (importedCss c')))
               \<and> set (importedCss c') \<subseteq> set (importedCss c) \<union> css_pool (pureCssChunks st) b
               \<and> chunk_code c' = concat (map (case_sum id placeholder)
                    (segments emptyRE (chunk_code c)))
               \<and> chunk_code c = concat (map (case_sum id id)
                    (segments emptyRE (chunk_code c)))))
       \<and> (\<forall>m. 15 \<le> length m \<longrightarrow> length (placeholder m) = length m)"
proof -
  define pure where "pure = pureCssChunks st"
  obtain r b1 where re: "emptyChunkRE B (format opts) pure = Inr r"
    and p: "prune_all pure r (map fst b) b = Inr b1"
    and b': "\<forall>k. map_of b' k = (if k \<in> set pure then None else map_of b1 k)"
    using generateBundle_bundle [OF assms(1,2,4)] unfolding pure_def by blast
  note pa = prune_all_props [OF p assms(3)]
  have w: "within (css_pool pure b) b b1"
    using prune_all_within [OF p, of "css_pool pure b"] by simp
  have 1: "\<forall>f\<in>set pure. map_of b' f = None" using b' by simp
  have 2: "\<exists>c'. map_of b' f = Some (ChunkItem c')
               \<and> chunk_imports c' = filter (\<lambda>i. i \<notin> set pure) (chunk_imports c)
               \<and> set (importedCss c) \<subseteq> set (importedCss c')
               \<and> (\<forall>p\<in>set (chunk_imports c). p \<in> set pure \<longrightarrow>
                     (\<exists>pc. map_of b p = Some (ChunkItem pc)
                          \<and> set (importedCss pc) \<subseteq> set (importedCss c')))
               \<and> set (importedCss c') \<subseteq> set (importedCss c) \<union> css_pool pure b
               \<and> chunk_code c' = concat (map (case_sum id placeholder) (segments r (chunk_code c)))
               \<and> chunk_code c = concat (map (case_sum id id) (segments r (chunk_code c)))"
    if f: "f \<notin> set pure" "map_of b f = Some (ChunkItem c)" for f c
  proof -
    have "f \<in> set (map fst b)" using f(2) by (metis map_of_eq_None_iff option.distinct(1) set_map)
    then obtain c' where c': "map_of b1 f = Some (ChunkItem c')"
        "chunk_imports c' = filter (\<lambda>i. i \<notin> set pure) (chunk_imports c)"
        "chunk_code c' = js_replace r placeholder (chunk_code c)"
        "\<forall>p\<in>set (chunk_imports c). p \<in> set pure \<longrightarrow>
           (\<exists>pc. map_of b p = Some (ChunkItem pc) \<and> set (importedCss pc) \<subseteq> set (importedCss c'))"
      using pa f(2) by blast
    have "grows b b1" using pa by blast
    then have own: "set (importedCss c) \<subseteq> set (importedCss c')"
      using f(2) c'(1) unfolding grows_def by fastforce
    have upper: "set (importedCss c') \<subseteq> set (importedCss c) \<union> css_pool pure b"
      using w c'(1) f(2) unfolding within_def by fastforce
    have "map_of b' f = Some (ChunkItem c')" using b' f(1) c'(1) by simp
    then show ?thesis using c' own upper by (simp add: js_replace_def segments_concat)
  qed
  have 3: "\<forall>m. 15 \<le> length m \<longrightarrow> length (placeholder m) = length m"
    by (simp add: length_placeholder)
  show ?thesis using re 1 2 3 unfolding pure_def by blast
qed

theorem generateBundle_prunes_witness:
  "map_of (snd (projr pruned)) ''assets/a.js'' = None
   \<and> (\<exists>c'. map_of (snd (projr pruned)) ''assets/main.js'' = Some (ChunkItem c')
          \<and> chunk_imports c' = []
          \<and> set (importedCss c') = {''assets/a.css''}
          \<and> chunk_code c' = ''/* empty css   */main();'')
   \<and> length (''import '' @ [CHR 0x22] @ ''./a.js'' @ [CHR 0x22] @ '';'' @ [CHR 0x0A])
       = length ''/* empty css   */''"
proof -
  have ok: "\<not> isl pruned" by code_simp
  have r: "generateBundle plain_rollup split_config es_output pruning_bundle pruning_state
             = Inr (fst (projr pruned), snd (projr pruned))"
    using ok by (simp add: pruned_def)
  have h1: "\<not> skip_asset_emit es_output" by code_simp
  have h3: "distinct (map fst pruning_bundle)" by code_simp
  have h4: "pureCssChunks pruning_state \<noteq> []" by code_simp
  have pure: "pureCssChunks pruning_state = [''assets/a.js'']" by code_simp
  have m: "map_of pruning_bundle ''assets/main.js'' = Some (ChunkItem main_chunk)" by code_simp
  have a: "map_of pruning_bundle ''assets/a.js'' = Some (ChunkItem rendered_css_chunk)"
    by code_simp
  have css: "importedCss rendered_css_chunk = [''assets/a.css'']" by code_simp
  have own: "importedCss main_chunk = []" by code_simp
  have pool: "css_pool [''assets/a.js''] pruning_bundle = {''assets/a.css''}"
    by (simp add: css_pool_def a css)
  have imps: "chunk_imports main_chunk = [''assets/a.js'']" by code_simp
  have code: "map_sum id (\<lambda>r. concat (map (case_sum id placeholder) (segments r (chunk_code main_chunk))))
                (emptyChunkRE plain_rollup (format es_output) [''assets/a.js''])
              = Inr ''/* empty css   */main();''"
    by code_simp
  from generateBundle_prunes [OF h1 r h3 h4, unfolded pure]
  obtain emptyRE where re: "emptyChunkRE plain_rollup (format es_output) [''assets/a.js''] = Inr emptyRE"
    and gone: "\<forall>f\<in>set [''assets/a.js'']. map_of (snd (projr pruned)) f = None"
    and each: "\<forall>f c. f \<notin> set [''assets/a.js''] \<and> map_of pruning_bundle f = Some (ChunkItem c) \<longrightarrow>
            (\<exists>c'. map_of (snd (projr pruned)) f = Some (ChunkItem c')
               \<and> chunk_imports c' = filter (\<lambda>i. i \<notin> set [''assets/a.js'']) (chunk_imports c)
               \<and> set (importedCss c) \<subseteq> set (importedCss c')
               \<and> (\<forall>p\<in>set (chunk_imports c). p \<in> set [''assets/a.js''] \<longrightarrow>
                     (\<exists>pc. map_of pruning_bundle p = Some (ChunkItem pc)
                          \<and> set (importedCss pc) \<subseteq> set (importedCss c')))
               \<and> set (importedCss c') \<subseteq> set (importedCss c) \<union> css_pool [''assets/a.js''] pruning_bundle
               \<and> chunk_code c' = concat (map (case_sum id placeholder)
                    (segments emptyRE (chunk_code c)))
               \<and> chunk_code c = concat (map (case_sum id id)
                    (segments emptyRE (chunk_code c))))"
    by (elim exE conjE)
  have 1: "map_of (snd (projr pruned)) ''assets/a.js'' = None"
    using gone by simp
  have pre: "''assets/main.js'' \<notin> set [''assets/a.js'']
      \<and> map_of pruning_bundle ''assets/main.js'' = Some (ChunkItem main_chunk)"
    using m by simp
  from each [rule_format, OF pre]
  obtain c' where c': "map_of (snd (projr pruned)) ''assets/main.js'' = Some (ChunkItem c')"
      "chunk_imports c' = filter (\<lambda>i. i \<notin> set [''assets/a.js'']) (chunk_imports main_chunk)"
      "\<forall>p\<in>set (chunk_imports main_chunk). p \<in> set [''assets/a.js''] \<longrightarrow>
         (\<exists>pc. map_of pruning_bundle p = Some (ChunkItem pc)
              \<and> set (importedCss pc) \<subseteq> set (importedCss c'))"
      "set (importedCss c') \<subseteq> set (importedCss main_chunk) \<union> css_pool [''assets/a.js''] pruning_bundle"
      "chunk_code c' = concat (map (case_sum id placeholder)
         (segments emptyRE (chunk_code main_chunk)))"
    by (elim exE conjE)
  have 2: "chunk_imports c' = []" using c'(2) imps by simp
  have mem: "''assets/a.js'' \<in> set (chunk_imports main_chunk)" by (simp add: imps)
  have "\<exists>pc. map_of pruning_bundle ''assets/a.js'' = Some (ChunkItem pc)
              \<and> set (importedCss pc) \<subseteq> set (importedCss c')"
    using c'(3) [rule_format, OF mem] by simp
  then have lower: "{''assets/a.css''} \<subseteq> set (importedCss c')"
    by (simp add: a css)
  have upper: "set (importedCss c') \<subseteq> {''assets/a.css''}"
    using c'(4) by (simp add: own pool)
  have 3: "set (importedCss c') = {''assets/a.css''}" using lower upper by blast
  have 4: "chunk_code c' = ''/* empty css   */main();''"
    using code unfolding re c'(5) by simp
  have 5: "length (''import '' @ [CHR 0x22] @ ''./a.js'' @ [CHR 0x22] @ '';'' @ [CHR 0x0A])
       = length ''/* empty css   */''" by simp
  show ?thesis using 1 c'(1) 2 3 4 5 by blast
qed

text \<open>
  A chunk name is pattern text to the engine. With a pure css chunk named
  \<^verbatim>\<open>(a).js\<close> the parentheses form a group: the import of \<^verbatim>\<open>./a.js\<close> is
  replaced and the import of \<^verbatim>\<open>./(a).js\<close> is left as it is. With a chunk named
  \<^verbatim>\<open>(a.js\<close> the pattern is not well formed and the finalize pass throws.
\<close>

lemma emptyChunkRE_names:
  "map_sum id
     (\<lambda>r. js_replace r placeholder
        (''import '' @ [CHR 0x22] @ ''./a.js'' @ [CHR 0x22] @ '';x;import '' @ [CHR 0x22]
           @ ''./(a).js'' @ [CHR 0x22] @ '';''))
     (emptyChunkRE plain_rollup ''es'' [''assets/(a).js''])
   = Inr (''/* empty css  */x;import '' @ [CHR 0x22] @ ''./(a).js'' @ [CHR 0x22] @ '';'')"
  "map_sum err_message (\<lambda>r. ()) (emptyChunkRE plain_rollup ''es'' [''assets/(a.js''])
   = Inl ''Invalid regular expression: Unterminated group''"
  "map_sum err_message (\<lambda>r. ())
     (generateBundle plain_rollup split_config es_output []
        (fresh_post_state\<lparr>pureCssChunks := [''assets/(a.js'']\<rparr>))
   = Inl ''Invalid regular expression: Unterminated group''"
  by code_simp+

end
